theory Spec2Isabelle
  imports Main "HOL-Library.Monad_Syntax"
begin

section \<open>Go integers and the strconv, strings functions used by the bucket\<close>

text \<open>
  Go's \<open>int\<close> and \<open>time.Duration\<close> are 64-bit two's complement integers on the
  platforms the package is built for. They are modelled as \<open>int\<close>, and every
  arithmetic operation of the source is followed by \<open>wrap64\<close>, which is what the
  hardware does on overflow.
\<close>

definition minInt64 :: int where
  "minInt64 = - 9223372036854775808"

definition maxInt64 :: int where
  "maxInt64 = 9223372036854775807"

definition inInt64 :: "int \<Rightarrow> bool" where
  "inInt64 x = (minInt64 \<le> x \<and> x \<le> maxInt64)"

definition wrap64 :: "int \<Rightarrow> int" where
  "wrap64 x = (x + 9223372036854775808) mod 18446744073709551616 - 9223372036854775808"

text \<open>Go's \<open>/\<close> on integers truncates towards zero.\<close>

definition quot :: "int \<Rightarrow> int \<Rightarrow> int" where
  "quot a b = sgn a * sgn b * (\<bar>a\<bar> div \<bar>b\<bar>)"

subsection \<open>Decimal digits\<close>

definition digitChar :: "int \<Rightarrow> char" where
  "digitChar d = ''0123456789'' ! nat d"

definition digitVal :: "char \<Rightarrow> int option" where
  "digitVal c = map_of (zip ''0123456789'' [0, 1, 2, 3, 4, 5, 6, 7, 8, 9]) c"

text \<open>The decimal rendering of a number that is not negative, most significant digit first.\<close>

function decimal :: "int \<Rightarrow> string" where
  "decimal n = (if n < 10 then [digitChar n] else decimal (n div 10) @ [digitChar (n mod 10)])"
  by pat_completeness auto
termination
  by (relation "measure nat") auto

declare decimal.simps [simp del]

subsection \<open>strconv.Itoa and strconv.Atoi\<close>

definition Itoa :: "int \<Rightarrow> string" where
  "Itoa i = (if i < 0 then CHR ''-'' # decimal (- i) else decimal i)"

datatype numErr = ErrSyntax | ErrRange

text \<open>
  The digit loop of \<open>strconv.ParseUint\<close> for base 10 and 64 bits: a character that
  is no digit is a syntax error, a value that leaves the unsigned 64-bit range is a
  range error, whichever the scan meets first.
\<close>

definition parseStep :: "numErr + int \<Rightarrow> char \<Rightarrow> numErr + int" where
  "parseStep acc c =
     (case acc of
        Inl e \<Rightarrow> Inl e
      | Inr n \<Rightarrow>
          (case digitVal c of
             None \<Rightarrow> Inl ErrSyntax
           | Some d \<Rightarrow>
               if n \<ge> 1844674407370955162 then Inl ErrRange
               else if n * 10 + d > 18446744073709551615 then Inl ErrRange
               else Inr (n * 10 + d)))"

definition ParseUint :: "string \<Rightarrow> numErr + int" where
  "ParseUint s = (if s = [] then Inl ErrSyntax else foldl parseStep (Inr 0) s)"

text \<open>
  \<open>strconv.Atoi\<close>: an optional sign, then at least one decimal digit, and the value
  must fit the signed 64-bit range. (The short-input fast path of the library computes
  the same result.)
\<close>

definition Atoi :: "string \<Rightarrow> numErr + int" where
  "Atoi s =
     (case s of
        [] \<Rightarrow> Inl ErrSyntax
      | c # r \<Rightarrow>
          (let neg = (c = CHR ''-'');
               body = (if c = CHR ''-'' \<or> c = CHR ''+'' then r else s)
           in case ParseUint body of
                Inl e \<Rightarrow> Inl e
              | Inr un \<Rightarrow>
                  if \<not> neg \<and> un \<ge> 9223372036854775808 then Inl ErrRange
                  else if neg \<and> un > 9223372036854775808 then Inl ErrRange
                  else Inr (if neg then - un else un)))"

subsection \<open>strings.Split with a one-character separator\<close>

fun Split :: "string \<Rightarrow> char \<Rightarrow> string list" where
  "Split [] sep = [[]]"
| "Split (c # cs) sep =
     (if c = sep then [] # Split cs sep
      else (case Split cs sep of
              [] \<Rightarrow> [[c]]
            | f # fs \<Rightarrow> (c # f) # fs))"


section \<open>time.Time, time.Duration and the RFC 3339 text form\<close>

text \<open>
  A \<open>time.Time\<close> is an instant with nanosecond resolution together with the offset
  of its location. The instant is kept as the number of nanoseconds since
  1970-01-01T00:00:00Z, the location as its offset east of UTC in seconds (a location
  whose offset does not change, as \<open>time.UTC\<close> and \<open>time.FixedZone\<close> are).
  A \<open>time.Duration\<close> is a 64-bit count of nanoseconds.
\<close>

record Time =
  unixNano :: int
  zoneOffset :: int

text \<open>\<open>t.Sub(u)\<close>: the difference, saturated where it leaves the 64-bit range.\<close>

definition Sub :: "Time \<Rightarrow> Time \<Rightarrow> int" where
  "Sub t u =
     (let d = unixNano t - unixNano u
      in if inInt64 d then d
         else if unixNano t < unixNano u then minInt64 else maxInt64)"

definition Add :: "Time \<Rightarrow> int \<Rightarrow> Time" where
  "Add t d = t\<lparr>unixNano := unixNano t + d\<rparr>"

subsection \<open>The proleptic Gregorian calendar\<close>

definition isLeap :: "int \<Rightarrow> bool" where
  "isLeap y = (y mod 4 = 0 \<and> (y mod 100 \<noteq> 0 \<or> y mod 400 = 0))"

text \<open>The number of days from 0001-01-01 to the first of January of year \<open>y\<close>.\<close>

definition daysBeforeYear :: "int \<Rightarrow> int" where
  "daysBeforeYear y = 365 * (y - 1) + (y - 1) div 4 - (y - 1) div 100 + (y - 1) div 400"

text \<open>
  The year a day number falls in: the mean year length gives an estimate that is off by
  at most one, and the two comparisons correct it.
\<close>

definition yearOfDay :: "int \<Rightarrow> int" where
  "yearOfDay n =
     (let e = (400 * n) div 146097 + 1
      in if n < daysBeforeYear e then e - 1
         else if daysBeforeYear (e + 1) \<le> n then e + 1
         else e)"

definition monthLengths :: "int \<Rightarrow> int list" where
  "monthLengths y = [31, if isLeap y then 29 else 28, 31, 30, 31, 30, 31, 31, 30, 31, 30, 31]"

definition daysIn :: "int \<Rightarrow> int \<Rightarrow> int" where
  "daysIn m y = monthLengths y ! nat (m - 1)"

text \<open>Walk the months of a year: the month and day of month of day \<open>r\<close> (from 0).\<close>

fun monthDay :: "int list \<Rightarrow> int \<Rightarrow> int \<Rightarrow> int \<times> int" where
  "monthDay [] m r = (m, r + 1)"
| "monthDay (l # ls) m r = (if r < l then (m, r + 1) else monthDay ls (m + 1) (r - l))"

definition civil :: "int \<Rightarrow> int \<times> int \<times> int" where
  "civil n =
     (let y = yearOfDay n;
          (m, d) = monthDay (monthLengths y) 1 (n - daysBeforeYear y)
      in (y, m, d))"

definition dayNumber :: "int \<Rightarrow> int \<Rightarrow> int \<Rightarrow> int" where
  "dayNumber y m d = daysBeforeYear y + sum_list (take (nat (m - 1)) (monthLengths y)) + d - 1"

text \<open>1970-01-01 is day 719162 after 0001-01-01.\<close>

definition unixEpochDay :: int where
  "unixEpochDay = 719162"

subsection \<open>Time.Format(time.RFC3339)\<close>

text \<open>
  \<open>appendInt\<close> of package time: the decimal digits of \<open>x\<close>, padded with zeros to
  \<open>width\<close>, after a minus sign when \<open>x\<close> is negative.
\<close>

definition appendInt :: "int \<Rightarrow> nat \<Rightarrow> string" where
  "appendInt x width =
     (let ds = decimal \<bar>x\<bar>
      in (if x < 0 then [CHR ''-''] else []) @ replicate (width - length ds) (CHR ''0'') @ ds)"

text \<open>
  The zone of the layout \<open>2006-01-02T15:04:05Z07:00\<close>: \<open>Z\<close> for offset 0 and
  otherwise sign, hours and minutes of the offset, its seconds dropped.
\<close>

definition formatZone :: "int \<Rightarrow> string" where
  "formatZone off =
     (if off = 0 then ''Z''
      else (let zone = quot off 60
            in (if zone < 0 then ''-'' else ''+'')
               @ appendInt (\<bar>zone\<bar> div 60) 2 @ '':'' @ appendInt (\<bar>zone\<bar> mod 60) 2))"

text \<open>
  The whole layout. The nanoseconds within the second are not part of it and are
  dropped.
\<close>

definition FormatRFC3339 :: "Time \<Rightarrow> string" where
  "FormatRFC3339 t =
     (let sec = unixNano t div 1000000000;
          off = zoneOffset t;
          local = sec + off;
          (y, m, d) = civil (local div 86400 + unixEpochDay);
          rem = local mod 86400
      in appendInt y 4 @ ''-'' @ appendInt m 2 @ ''-'' @ appendInt d 2 @ ''T''
         @ appendInt (rem div 3600) 2 @ '':'' @ appendInt (rem mod 3600 div 60) 2 @ '':''
         @ appendInt (rem mod 60) 2 @ formatZone off)"

subsection \<open>time.Parse(time.RFC3339, s)\<close>

text \<open>
  \<open>getnum\<close> of package time: one or two leading digits; with \<open>fixed\<close> exactly two.
\<close>

definition getnum :: "string \<Rightarrow> bool \<Rightarrow> (int \<times> string) option" where
  "getnum s fixed =
     (case s of
        [] \<Rightarrow> None
      | c0 # r0 \<Rightarrow>
          (case digitVal c0 of
             None \<Rightarrow> None
           | Some d0 \<Rightarrow>
               (case r0 of
                  [] \<Rightarrow> if fixed then None else Some (d0, r0)
                | c1 # r1 \<Rightarrow>
                    (case digitVal c1 of
                       None \<Rightarrow> if fixed then None else Some (d0, r0)
                     | Some d1 \<Rightarrow> Some (d0 * 10 + d1, r1)))))"

text \<open>A literal character of the layout must be the next character of the value.\<close>

definition skipChar :: "char \<Rightarrow> string \<Rightarrow> string option" where
  "skipChar c s = (case s of [] \<Rightarrow> None | x # r \<Rightarrow> if x = c then Some r else None)"

definition digitsValue :: "string \<Rightarrow> int" where
  "digitsValue ds = foldl (\<lambda>a c. a * 10 + (case digitVal c of None \<Rightarrow> 0 | Some d \<Rightarrow> d)) 0 ds"

text \<open>The year of the layout: four characters, all of them digits.\<close>

definition getYear :: "string \<Rightarrow> (int \<times> string) option" where
  "getYear s =
     (if length s < 4 \<or> (\<exists>c \<in> set (take 4 s). digitVal c = None) then None
      else Some (digitsValue (take 4 s), drop 4 s))"

text \<open>
  After the seconds the parser accepts a fractional second that the layout does not
  have: a period or comma followed by digits, of which the first nine count.
\<close>

definition getFraction :: "string \<Rightarrow> int \<times> string" where
  "getFraction s =
     (case s of
        c # d # r \<Rightarrow>
          if (c = CHR ''.'' \<or> c = CHR '','') \<and> digitVal d \<noteq> None then
            (let ds = takeWhile (\<lambda>x. digitVal x \<noteq> None) (d # r);
                 used = take 9 ds
             in (digitsValue used * 10 ^ (9 - length used),
                 dropWhile (\<lambda>x. digitVal x \<noteq> None) (d # r)))
          else (0, s)
      | _ \<Rightarrow> (0, s))"

text \<open>
  The zone of the layout (\<open>Z07:00\<close>): \<open>Z\<close>, or a sign, two digits, a colon and two
  digits; hours above 24 and minutes above 60 are out of range.
\<close>

definition getZone :: "string \<Rightarrow> (int \<times> string) option" where
  "getZone s =
     (case s of
        [] \<Rightarrow> None
      | c # r \<Rightarrow>
          if c = CHR ''Z'' then Some (0, r)
          else if length s < 6 then None
          else if s ! 3 \<noteq> CHR '':'' then None
          else (case getnum (take 2 r) True of
                  None \<Rightarrow> None
                | Some (hr, _) \<Rightarrow>
                    (case getnum (take 2 (drop 4 s)) True of
                       None \<Rightarrow> None
                     | Some (mm, _) \<Rightarrow>
                         if hr > 24 \<or> mm > 60 then None
                         else if c = CHR ''+'' then Some ((hr * 60 + mm) * 60, drop 6 s)
                         else if c = CHR ''-'' then Some (- ((hr * 60 + mm) * 60), drop 6 s)
                         else None)))"

definition ParseRFC3339 :: "string \<Rightarrow> Time option" where
  "ParseRFC3339 s =
     do {
       (year, s1) \<leftarrow> getYear s;
       s2 \<leftarrow> skipChar (CHR ''-'') s1;
       (month, s3) \<leftarrow> getnum s2 True;
       _ \<leftarrow> (if month \<le> 0 \<or> 12 < month then None else Some ());
       s4 \<leftarrow> skipChar (CHR ''-'') s3;
       (day, s5) \<leftarrow> getnum s4 True;
       s6 \<leftarrow> skipChar (CHR ''T'') s5;
       (hour, s7) \<leftarrow> getnum s6 False;
       _ \<leftarrow> (if 24 \<le> hour then None else Some ());
       s8 \<leftarrow> skipChar (CHR '':'') s7;
       (minute, s9) \<leftarrow> getnum s8 True;
       _ \<leftarrow> (if 60 \<le> minute then None else Some ());
       s10 \<leftarrow> skipChar (CHR '':'') s9;
       (sec, s11) \<leftarrow> getnum s10 True;
       _ \<leftarrow> (if 60 \<le> sec then None else Some ());
       (nsec, s12) \<leftarrow> Some (getFraction s11);
       (off, s13) \<leftarrow> getZone s12;
       _ \<leftarrow> (if s13 \<noteq> [] then None else Some ());
       _ \<leftarrow> (if day < 1 \<or> day > daysIn month year then None else Some ());
       Some \<lparr>unixNano =
                ((dayNumber year month day - unixEpochDay) * 86400
                   + hour * 3600 + minute * 60 + sec - off) * 1000000000 + nsec,
             zoneOffset = off\<rparr>
     }"

section \<open>Errors\<close>

text \<open>
  The error values that can leave \<open>Walk\<close>. The two package errors of
  \<open>errors.go\<close> and the sentinels \<open>redis.Nil\<close> and \<open>redis.TxFailedErr\<close> are
  compared by identity in the source (\<open>errors.Is\<close>), so each is a constructor of its
  own. \<open>StoreError\<close> stands for every other error the redis client returns (network,
  timeout, protocol, cancelled context), with its message.
\<close>

datatype error =
    ErrNoTokensAwailable
  | ErrBadSyntaxInStorage
  | ErrorsNew string
  | RedisNil
  | TxFailedErr
  | NumError string numErr
  | ParseError string
  | StoreError string
  | PanicDivideByZero

section \<open>The bucket and its configuration\<close>

datatype redis_Client = Client string

record BucketConfigs =
  Host :: string
  Port :: int
  Network :: string
  Capability :: int
  Duration :: int
  NewTokenAppendTime :: int

record RedisBucket =
  core :: "redis_Client option"
  cap :: int
  dur :: int
  tokenAppendTime :: int

definition MaxTokensCapDefault :: int where
  "MaxTokensCapDefault = 10"

definition NewTokenAppendTimeDefault :: int where
  "NewTokenAppendTimeDefault = 10 * 1000000000"

definition DurationDefault :: int where
  "DurationDefault = 30 * 60 * 1000000000"

definition NewRedisBucketWithClient :: "BucketConfigs \<Rightarrow> redis_Client option \<Rightarrow> RedisBucket" where
  "NewRedisBucketWithClient cfg c =
     \<lparr>core = c,
      cap = (if Capability cfg \<le> 0 then MaxTokensCapDefault else Capability cfg),
      dur = (if Duration cfg \<le> 0 then DurationDefault else Duration cfg),
      tokenAppendTime =
        (if NewTokenAppendTime cfg \<le> 0 then NewTokenAppendTimeDefault else NewTokenAppendTime cfg)\<rparr>"

section \<open>The redis server as seen from one connection\<close>

text \<open>
  The commands the bucket sends: \<open>WATCH key\<close>, \<open>GET key\<close>, the pipeline
  \<open>MULTI; SET key value PX ttl; EXEC\<close> and \<open>UNWATCH\<close>.
\<close>

datatype command = WATCH string | GET string | EXEC_SET string string int | UNWATCH

text \<open>
  What the bucket does not control is an input of the model: the readings of the wall
  clock (\<open>clock n\<close> is what the \<open>n\<close>-th call of \<open>time.Now\<close> returns), what other
  clients and key expiry do to the store (\<open>others n\<close> lists the keys they set or delete
  after this connection's \<open>n\<close>-th command was sent and before the server executes it),
  and the failures of the transport (\<open>faults n\<close> is the error of the \<open>n\<close>-th command,
  if it fails).
\<close>

record environment =
  clock :: "nat \<Rightarrow> Time"
  others :: "nat \<Rightarrow> (string \<times> (string \<times> int) option) list"
  faults :: "nat \<Rightarrow> string option"

text \<open>
  The state: the keys of the store with their value and time to live, the keys this
  connection watches, whether one of them was modified since it was watched, the commands
  sent so far, the writes of this connection that the server committed, and the number of
  clock readings taken.
\<close>

record world =
  db :: "string \<rightharpoonup> string \<times> int"
  watched :: "string list"
  touched :: bool
  sent :: "command list"
  committed :: "(string \<times> string \<times> int) list"
  nowReads :: nat

definition Now :: "environment \<Rightarrow> world \<Rightarrow> Time \<times> world" where
  "Now env w = (clock env (nowReads w), w\<lparr>nowReads := Suc (nowReads w)\<rparr>)"

text \<open>The server applies what the other clients did, then takes the command.\<close>

definition arrive :: "environment \<Rightarrow> command \<Rightarrow> world \<Rightarrow> world" where
  "arrive env c w =
     (let ws = others env (length (sent w))
      in w\<lparr>db := foldl (\<lambda>d kv. d(fst kv := snd kv)) (db w) ws,
            touched := (touched w \<or> (\<exists>kv \<in> set ws. fst kv \<in> set (watched w))),
            sent := sent w @ [c]\<rparr>)"

definition tx_Watch :: "environment \<Rightarrow> string \<Rightarrow> world \<Rightarrow> error option \<times> world" where
  "tx_Watch env key w =
     (let w1 = arrive env (WATCH key) w
      in case faults env (length (sent w)) of
           Some msg \<Rightarrow> (Some (StoreError msg), w1)
         | None \<Rightarrow> (None, w1\<lparr>watched := [key], touched := False\<rparr>))"

definition tx_Get :: "environment \<Rightarrow> string \<Rightarrow> world \<Rightarrow> (error + string) \<times> world" where
  "tx_Get env key w =
     (let w1 = arrive env (GET key) w
      in case faults env (length (sent w)) of
           Some msg \<Rightarrow> (Inl (StoreError msg), w1)
         | None \<Rightarrow>
             (case db w1 key of
                None \<Rightarrow> (Inl RedisNil, w1)
              | Some v \<Rightarrow> (Inr (fst v), w1)))"

text \<open>
  \<open>tx.TxPipelined\<close> with the one \<open>Set\<close> of the source: the server executes the
  transaction unless a watched key was modified, in which case the client returns
  \<open>redis.TxFailedErr\<close>. Either way the connection watches nothing afterwards. A
  command that fails in the transport is taken not to have reached the server.
\<close>

definition tx_TxPipelined_Set ::
    "environment \<Rightarrow> string \<Rightarrow> string \<Rightarrow> int \<Rightarrow> world \<Rightarrow> error option \<times> world" where
  "tx_TxPipelined_Set env key val ttl w =
     (let w1 = arrive env (EXEC_SET key val ttl) w
      in case faults env (length (sent w)) of
           Some msg \<Rightarrow> (Some (StoreError msg), w1)
         | None \<Rightarrow>
             if touched w1 then (Some TxFailedErr, w1\<lparr>watched := [], touched := False\<rparr>)
             else (None, w1\<lparr>db := (db w1)(key \<mapsto> (val, ttl)),
                               committed := committed w1 @ [(key, val, ttl)],
                               watched := [], touched := False\<rparr>))"

text \<open>\<open>tx.Close\<close> sends \<open>UNWATCH\<close> and drops its error.\<close>

definition tx_Close :: "environment \<Rightarrow> world \<Rightarrow> world" where
  "tx_Close env w = (arrive env UNWATCH w)\<lparr>watched := [], touched := False\<rparr>"

text \<open>
  \<open>Client.Watch(ctx, fn, key)\<close>: watch the key, run \<open>fn\<close>, and close the transaction
  whatever happened.
\<close>

definition Watch ::
    "environment \<Rightarrow> (world \<Rightarrow> error option \<times> world) \<Rightarrow> string \<Rightarrow> world \<Rightarrow> error option \<times> world" where
  "Watch env fn key w =
     (case tx_Watch env key w of
        (Some err, w1) \<Rightarrow> (Some err, tx_Close env w1)
      | (None, w1) \<Rightarrow> (case fn w1 of (r, w2) \<Rightarrow> (r, tx_Close env w2)))"

section \<open>RedisBucket.Walk\<close>

definition storeKey :: "string \<Rightarrow> string" where
  "storeKey ip = ''ginratelimiter:'' @ ip"

text \<open>
  Lines 173 to 199: the tokens that the time since \<open>t\<close> has earned are added, up to the
  capacity, and the time is moved on. Both \<open>time.Since\<close> and \<open>time.Now\<close> read the
  clock. The division panics when the bucket's \<open>tokenAppendTime\<close> is zero, which the
  constructors exclude.
\<close>

definition refill ::
    "environment \<Rightarrow> RedisBucket \<Rightarrow> int \<Rightarrow> Time \<Rightarrow> world \<Rightarrow> (error + int \<times> Time) \<times> world" where
  "refill env b tokens t w =
     (if tokens < cap b then
        (let (now, w1) = Now env w;
             p = Sub now t
         in if p \<ge> tokenAppendTime b then
              if tokenAppendTime b = 0 then (Inl PanicDivideByZero, w1)
              else
                (let add0 = quot p (tokenAppendTime b);
                     add = min add0 (wrap64 (cap b - tokens));
                     tokens' = wrap64 (tokens + add)
                 in if tokens' = cap b then
                      (let (now2, w2) = Now env w1 in (Inr (tokens', now2), w2))
                    else (Inr (tokens', Add t (wrap64 (add * tokenAppendTime b))), w1))
            else (Inr (tokens, t), w1))
      else (Inr (tokens, t), w))"

text \<open>
  Lines 159 to 171: the stored value is split at \<open>|\<close> into the tokens and the time
  of the last refill. The errors of \<open>strconv.Atoi\<close> and \<open>time.Parse\<close> are returned
  as they are.
\<close>

definition decodeRecord :: "string \<Rightarrow> error + int \<times> Time" where
  "decodeRecord r =
     (let d = Split r (CHR ''|'')
      in if length d \<noteq> 2 then Inl ErrBadSyntaxInStorage
         else
           (case Atoi (d ! 0) of
              Inl e \<Rightarrow> Inl (NumError (d ! 0) e)
            | Inr tokens \<Rightarrow>
                (case ParseRFC3339 (d ! 1) of
                   None \<Rightarrow> Inl (ParseError (d ! 1))
                 | Some t \<Rightarrow> Inr (tokens, t))))"

text \<open>The stored value for tokens and time (the argument of \<open>pipe.Set\<close> in line 207).\<close>

definition encodeRecord :: "int \<Rightarrow> Time \<Rightarrow> string" where
  "encodeRecord tokens t = Itoa tokens @ ''|'' @ FormatRFC3339 t"

text \<open>
  Lines 151 to 204: from the reply to \<open>GET\<close> to the tokens and time that authorize
  the request, or to the error the closure returns. An absent key is a full bucket as of
  now.
\<close>

definition decide ::
    "environment \<Rightarrow> RedisBucket \<Rightarrow> error + string \<Rightarrow> world \<Rightarrow> (error + int \<times> Time) \<times> world" where
  "decide env b reply w =
     (case reply of
        Inl err \<Rightarrow>
          if err \<noteq> RedisNil then (Inl err, w)
          else (let (now, w1) = Now env w in (Inr (cap b, now), w1))
      | Inr r \<Rightarrow>
          (case decodeRecord r of
             Inl e \<Rightarrow> (Inl e, w)
           | Inr (tokens, t) \<Rightarrow>
               (case refill env b tokens t w of
                  (Inl e, w1) \<Rightarrow> (Inl e, w1)
                | (Inr (tokens', t'), w1) \<Rightarrow>
                    if tokens' \<le> 0 then (Inl ErrNoTokensAwailable, w1)
                    else (Inr (tokens', t'), w1))))"

text \<open>
  The closure passed to \<open>Watch\<close> (lines 150 to 211): read, decide, and write one
  token less with the bucket's duration as time to live.
\<close>

definition txBody :: "environment \<Rightarrow> RedisBucket \<Rightarrow> string \<Rightarrow> world \<Rightarrow> error option \<times> world" where
  "txBody env b ip w =
     (let (reply, w1) = tx_Get env (storeKey ip) w
      in case decide env b reply w1 of
           (Inl err, w2) \<Rightarrow> (Some err, w2)
         | (Inr (tokens, t), w2) \<Rightarrow>
             tx_TxPipelined_Set env (storeKey ip) (encodeRecord (wrap64 (tokens - 1)) t) (dur b) w2)"

text \<open>One turn of the loop of \<open>Walk\<close>: one call of \<open>b.core.Watch\<close>.\<close>

definition attempt :: "environment \<Rightarrow> RedisBucket \<Rightarrow> string \<Rightarrow> world \<Rightarrow> error option \<times> world" where
  "attempt env b ip w = Watch env (txBody env b ip) (storeKey ip) w"

text \<open>
  The loop of lines 149 to 220 has no bound: it runs until an attempt ends with anything
  but \<open>redis.TxFailedErr\<close>. Not returning is the value \<open>None\<close>.
\<close>

partial_function (option) walkLoop ::
    "environment \<Rightarrow> RedisBucket \<Rightarrow> string \<Rightarrow> world \<Rightarrow> (error option \<times> world) option" where
  "walkLoop env b ip w =
     (case attempt env b ip w of
        (Some err, w1) \<Rightarrow>
          if err \<noteq> TxFailedErr then Some (Some err, w1) else walkLoop env b ip w1
      | (None, w1) \<Rightarrow> Some (None, w1))"

declare walkLoop.simps [code]

text \<open>Of the request only the client address is used.\<close>

datatype json = JString string | JObject "(string \<times> json) list"

record ginContext =
  ClientIP :: string
  aborted :: bool
  response :: "(int \<times> json) option"

definition Walk ::
    "environment \<Rightarrow> RedisBucket \<Rightarrow> ginContext \<Rightarrow> world \<Rightarrow> (error option \<times> world) option" where
  "Walk env b ctx w =
     (if core b = None then Some (Some (ErrorsNew ''redis core is nil''), w)
      else walkLoop env b (ClientIP ctx) w)"

text \<open>Calls one after the other, each on the state the one before left.\<close>

fun Walks ::
    "environment \<Rightarrow> RedisBucket \<Rightarrow> ginContext list \<Rightarrow> world \<Rightarrow> (error option list \<times> world) option" where
  "Walks env b [] w = Some ([], w)"
| "Walks env b (c # cs) w =
     (case Walk env b c w of
        None \<Rightarrow> None
      | Some (r, w1) \<Rightarrow>
          (case Walks env b cs w1 of
             None \<Rightarrow> None
           | Some (rs, w2) \<Rightarrow> Some (r # rs, w2)))"

section \<open>The middleware\<close>

definition DefaultServerError :: json where
  "DefaultServerError = JObject [(''error'', JString ''server error occured'')]"

definition DefaultTooManyRequestsError :: json where
  "DefaultTooManyRequestsError = JObject [(''error'', JString ''too many requests, try again later'')]"

text \<open>
  \<open>Bucket\<close> and \<open>io.Writer\<close> are interfaces. Of a bucket the handler calls
  \<open>Walk\<close>, which returns an error or none, or does not return; a panic of \<open>Walk\<close>
  is the value \<open>PanicDivideByZero\<close>. Of a writer it calls \<open>Write\<close> with the
  text of an error: the text is kept as the error it is the text of, and a writer takes it
  and what was written to it so far, and returns the error of \<open>Write\<close> and what is
  written then.
\<close>

type_synonym Bucket = "ginContext \<Rightarrow> world \<Rightarrow> (error option \<times> world) option"

type_synonym io_Writer = "error \<Rightarrow> error list \<Rightarrow> error option \<times> error list"

text \<open>
  The limiter (lines 57 to 62 of the middleware) holds the bucket, the logger and the two
  bodies. An interface value can be \<open>nil\<close>, here \<open>None\<close>, and \<open>NewLimiter\<close>
  (lines 64 to 71) stores what it is given without a check; its context is not used. The
  bodies are values that render as JSON.
\<close>

record limiter =
  bucket :: "Bucket option"
  logger :: "io_Writer option"
  serverError :: json
  tooManyRequestsError :: json

datatype context_Context = Background

definition NewLimiter ::
    "context_Context \<Rightarrow> Bucket option \<Rightarrow> io_Writer option \<Rightarrow> json \<Rightarrow> json \<Rightarrow> limiter" where
  "NewLimiter c bkt lg se tmr =
     \<lparr>bucket = bkt, logger = lg, serverError = se, tooManyRequestsError = tmr\<rparr>"

definition AbortWithStatusJSON :: "int \<Rightarrow> json \<Rightarrow> ginContext \<Rightarrow> ginContext" where
  "AbortWithStatusJSON code obj ctx = ctx\<lparr>aborted := True, response := Some (code, obj)\<rparr>"

text \<open>
  \<open>errors.Is\<close> follows the chain of wrapped errors; none of the errors here wraps
  another.
\<close>

definition errors_Is :: "error \<Rightarrow> error \<Rightarrow> bool" where
  "errors_Is err target = (err = target)"

text \<open>
  The handler that \<open>WalkThrough\<close> returns (lines 74 to 85), on a request, what the
  logger holds and the store. It returns or panics: calling a method of a \<open>nil\<close>
  interface is a nil pointer dereference, and a panic of \<open>Walk\<close> goes through the
  handler. For an error other than \<open>ErrNoTokensAwailable\<close> the text is written to the
  logger first, the error of \<open>Write\<close> is dropped, and then the request is aborted.
\<close>

datatype panic = NilPointerDereference | IntegerDivideByZero

definition WalkThrough ::
    "limiter \<Rightarrow> ginContext \<times> error list \<times> world
       \<Rightarrow> (panic option \<times> ginContext \<times> error list \<times> world) option" where
  "WalkThrough l s =
     (case s of (ctx, logged, w) \<Rightarrow>
        (case bucket l of
           None \<Rightarrow> Some (Some NilPointerDereference, ctx, logged, w)
         | Some bkt \<Rightarrow>
             (case bkt ctx w of
                None \<Rightarrow> None
              | Some (None, w1) \<Rightarrow> Some (None, ctx, logged, w1)
              | Some (Some err, w1) \<Rightarrow>
                  if err = PanicDivideByZero then Some (Some IntegerDivideByZero, ctx, logged, w1)
                  else if errors_Is err ErrNoTokensAwailable
                  then Some (None, AbortWithStatusJSON 429 (tooManyRequestsError l) ctx, logged, w1)
                  else
                    (case logger l of
                       None \<Rightarrow> Some (Some NilPointerDereference, ctx, logged, w1)
                     | Some wr \<Rightarrow>
                         (case wr err logged of
                            (werr, logged') \<Rightarrow>
                              Some (None, AbortWithStatusJSON 500 (serverError l) ctx, logged', w1))))))"

section \<open>Concrete inputs\<close>

text \<open>
  A bucket of capacity 3 with the default refill time of ten seconds and the default
  duration, a request, a store without keys, and environments: a quiet one (the clock
  starts at 2023-11-14T22:13:20.123456789Z and advances one second per reading, nobody
  else writes, nothing fails), one where another client writes the key after this
  connection's \<open>GET\<close>, and one where the \<open>GET\<close> times out.
\<close>

definition bucket3 :: RedisBucket where
  "bucket3 =
     NewRedisBucketWithClient
       \<lparr>Host = ''localhost'', Port = 6379, Network = ''tcp'', Capability = 3, Duration = 0,
        NewTokenAppendTime = 0\<rparr>
       (Some (Client ''localhost:6379''))"

definition request1 :: ginContext where
  "request1 = \<lparr>ClientIP = ''10.0.0.1'', aborted = False, response = None\<rparr>"

definition emptyWorld :: world where
  "emptyWorld = \<lparr>db = Map.empty, watched = [], touched = False, sent = [], committed = [], nowReads = 0\<rparr>"

definition quietEnv :: environment where
  "quietEnv =
     \<lparr>clock = (\<lambda>n. \<lparr>unixNano = 1700000000123456789 + int n * 1000000000, zoneOffset = 0\<rparr>),
      others = (\<lambda>n. []),
      faults = (\<lambda>n. None)\<rparr>"

definition racingEnv :: environment where
  "racingEnv =
     quietEnv\<lparr>others :=
       (\<lambda>n. if n = 2 then [(''ginratelimiter:10.0.0.1'', Some (''0|2023-11-14T22:13:20Z'', 1800000000000))]
            else [])\<rparr>"

definition failingEnv :: environment where
  "failingEnv = quietEnv\<lparr>faults := (\<lambda>n. if n = 1 then Some ''i/o timeout'' else None)\<rparr>"

text \<open>
  A run of less than ten seconds: the clock starts at 2023-11-14T22:13:20.9Z, advances
  one second per reading for four readings, and the fifth reading is 9.6 seconds after
  the first.
\<close>

definition burstEnv :: environment where
  "burstEnv =
     quietEnv\<lparr>clock :=
       (\<lambda>n. \<lparr>unixNano = (if n < 4 then 1700000000900000000 + int n * 1000000000
                          else 1700000010500000000),
              zoneOffset = 0\<rparr>)\<rparr>"

text \<open>
  A bucket of capacity 3 whose refill time is 100 milliseconds, and a run of ten
  milliseconds: the clock starts at 2023-11-14T22:13:20.9Z and advances one millisecond
  per reading.
\<close>

definition bucket100ms :: RedisBucket where
  "bucket100ms =
     NewRedisBucketWithClient
       \<lparr>Host = ''localhost'', Port = 6379, Network = ''tcp'', Capability = 3, Duration = 0,
        NewTokenAppendTime = 100000000\<rparr>
       (Some (Client ''localhost:6379''))"

definition rapidEnv :: environment where
  "rapidEnv =
     quietEnv\<lparr>clock :=
       (\<lambda>n. \<lparr>unixNano = 1700000000900000000 + int n * 1000000, zoneOffset = 0\<rparr>)\<rparr>"

text \<open>
  Two writers: one that keeps what it is given, and one that fails and keeps nothing.
\<close>

definition bufferWriter :: io_Writer where
  "bufferWriter err logged = (None, logged @ [err])"

definition closedWriter :: io_Writer where
  "closedWriter err logged = (Some (ErrorsNew ''write: file already closed''), logged)"

text \<open>Stores that hold, for the address of the request, a value this package did not write.\<close>

definition storing :: "string \<Rightarrow> world" where
  "storing v = emptyWorld\<lparr>db := [storeKey ''10.0.0.1'' \<mapsto> (v, 1800000000000)]\<rparr>"

section \<open>Predicates used to state the properties\<close>

text \<open>
  The text of an integer: an optional sign followed by at least one decimal digit, and
  the number it denotes. It is a valid \<open>int\<close> when the number is within 64 bits.
\<close>

definition integerText :: "string \<Rightarrow> bool" where
  "integerText s =
     (case s of
        [] \<Rightarrow> False
      | c # r \<Rightarrow>
          (let body = (if c = CHR ''-'' \<or> c = CHR ''+'' then r else s)
           in body \<noteq> [] \<and> list_all (\<lambda>x. digitVal x \<noteq> None) body))"

definition integerValue :: "string \<Rightarrow> int" where
  "integerValue s =
     (case s of
        [] \<Rightarrow> 0
      | c # r \<Rightarrow>
          if c = CHR ''-'' then - digitsValue r
          else if c = CHR ''+'' then digitsValue r
          else digitsValue s)"

text \<open>
  The date of a timestamp as RFC 3339 writes it: four digits, a hyphen, two digits, a
  hyphen, two digits and the letter \<open>T\<close>.
\<close>

definition dateText :: "string \<Rightarrow> bool" where
  "dateText s =
     (11 \<le> length s
      \<and> list_all (\<lambda>x. digitVal x \<noteq> None) (take 4 s) \<and> s ! 4 = CHR ''-''
      \<and> list_all (\<lambda>x. digitVal x \<noteq> None) (take 2 (drop 5 s)) \<and> s ! 7 = CHR ''-''
      \<and> list_all (\<lambda>x. digitVal x \<noteq> None) (take 2 (drop 8 s)) \<and> s ! 10 = CHR ''T'')"

text \<open>
  The times the layout of RFC 3339 can carry: a year from 0 to 9999 in the time's own
  location, and an offset of whole minutes below 25 hours (the parser accepts hours up
  to 24).
\<close>

definition inRFC3339Range :: "Time \<Rightarrow> bool" where
  "inRFC3339Range t =
     (- 62167219200 \<le> unixNano t div 1000000000 + zoneOffset t
      \<and> unixNano t div 1000000000 + zoneOffset t < 253402300800
      \<and> zoneOffset t mod 60 = 0 \<and> \<bar>zoneOffset t\<bar> < 90000)"

text \<open>\<open>t.Truncate(time.Second)\<close>: the time without its fraction of a second.\<close>

definition truncateSecond :: "Time \<Rightarrow> Time" where
  "truncateSecond t = t\<lparr>unixNano := unixNano t div 1000000000 * 1000000000\<rparr>"

text \<open>
  The buckets the constructors build: capacity, refill time and duration are positive
  (and, being Go integers, within 64 bits).
\<close>

definition validBucket :: "RedisBucket \<Rightarrow> bool" where
  "validBucket b =
     (0 < cap b \<and> inInt64 (cap b) \<and> 0 < tokenAppendTime b \<and> inInt64 (tokenAppendTime b)
      \<and> 0 < dur b \<and> inInt64 (dur b))"

text \<open>
  A stored value that a bucket of this capacity can have written: the encoding of a
  number of tokens from 0 to the capacity and a time.
\<close>

definition writtenBy :: "RedisBucket \<Rightarrow> string \<Rightarrow> bool" where
  "writtenBy b v = (\<exists>n t. v = encodeRecord n t \<and> 0 \<le> n \<and> n \<le> cap b)"

text \<open>Every value in the store, and every value the other clients write, is such a value.\<close>

definition storeWrittenBy :: "RedisBucket \<Rightarrow> (string \<rightharpoonup> string \<times> int) \<Rightarrow> bool" where
  "storeWrittenBy b d = (\<forall>k v ttl. d k = Some (v, ttl) \<longrightarrow> writtenBy b v)"

definition othersWrittenBy :: "RedisBucket \<Rightarrow> environment \<Rightarrow> bool" where
  "othersWrittenBy b env =
     (\<forall>n k v ttl. (k, Some (v, ttl)) \<in> set (others env n) \<longrightarrow> writtenBy b v)"


text \<open>Nobody else touches the store, and no command fails in the transport.\<close>

definition quiet :: "environment \<Rightarrow> bool" where
  "quiet env = (\<forall>n. others env n = [])"

definition faultless :: "environment \<Rightarrow> bool" where
  "faultless env = (\<forall>n. faults env n = None)"

section \<open>Properties of the library functions\<close>

subsection \<open>Decimal text and numbers\<close>

lemma digitVal_digitChar: "0 \<le> d \<Longrightarrow> d < 10 \<Longrightarrow> digitVal (digitChar d) = Some d"
proof -
  assume "0 \<le> d" "d < 10"
  then have "d = 0 \<or> d = 1 \<or> d = 2 \<or> d = 3 \<or> d = 4 \<or> d = 5 \<or> d = 6 \<or> d = 7 \<or> d = 8 \<or> d = 9"
    by arith
  then show ?thesis
    by (elim disjE) (simp_all add: digitVal_def digitChar_def)
qed

lemma foldl_parse_decimal:
  "0 \<le> n \<Longrightarrow> n < 18446744073709551616 \<Longrightarrow> foldl parseStep (Inr 0) (decimal n) = Inr n"
proof (induction n rule: decimal.induct)
  case (1 n)
  show ?case
  proof (cases "n < 10")
    case True
    with "1.prems" show ?thesis
      by (subst decimal.simps) (simp add: parseStep_def digitVal_digitChar)
  next
    case False
    have lt: "0 \<le> n div 10" "n div 10 < 18446744073709551616" using "1.prems" by linarith+
    have ih: "foldl parseStep (Inr 0) (decimal (n div 10)) = Inr (n div 10)"
      using "1.IH" False lt by simp
    have small: "n div 10 < 1844674407370955162" using "1.prems" by linarith
    have recomp: "n div 10 * 10 + n mod 10 = n" by simp
    have m: "0 \<le> n mod 10" "n mod 10 < 10" by simp_all
    show ?thesis
      using False ih small recomp "1.prems" m
      by (subst decimal.simps) (simp add: parseStep_def digitVal_digitChar)
  qed
qed

lemma decimal_nonempty: "decimal n \<noteq> []"
  by (subst decimal.simps) simp

lemma decimal_digits: "0 \<le> n \<Longrightarrow> c \<in> set (decimal n) \<Longrightarrow> digitVal c \<noteq> None"
proof (induction n rule: decimal.induct)
  case (1 n)
  show ?case
  proof (cases "n < 10")
    case True
    with "1.prems" have "c = digitChar n" by (subst (asm) decimal.simps) simp
    with True "1.prems" show ?thesis by (simp add: digitVal_digitChar)
  next
    case False
    with "1.prems" have "c \<in> set (decimal (n div 10)) \<or> c = digitChar (n mod 10)"
      by (subst (asm) decimal.simps) auto
    moreover have "0 \<le> n div 10" using "1.prems" by linarith
    moreover have "0 \<le> n mod 10" "n mod 10 < 10" by simp_all
    ultimately show ?thesis using "1.IH" False by (auto simp: digitVal_digitChar)
  qed
qed

lemma Atoi_Itoa: "inInt64 i \<Longrightarrow> Atoi (Itoa i) = Inr i"
proof -
  assume r: "inInt64 i"
  show ?thesis
  proof (cases "i < 0")
    case True
    have b: "0 \<le> - i" "- i < 18446744073709551616" using r True by (simp_all add: inInt64_def minInt64_def)
    have "ParseUint (decimal (- i)) = Inr (- i)"
      using foldl_parse_decimal [OF b] decimal_nonempty by (simp add: ParseUint_def)
    then show ?thesis using True r
      by (simp add: Atoi_def Itoa_def inInt64_def minInt64_def)
  next
    case False
    have b: "0 \<le> i" "i < 18446744073709551616" using r False by (simp_all add: inInt64_def maxInt64_def)
    have p: "ParseUint (decimal i) = Inr i"
      using foldl_parse_decimal [OF b] decimal_nonempty by (simp add: ParseUint_def)
    obtain c r' where cr: "decimal i = c # r'"
      using decimal_nonempty [of i] by (cases "decimal i") auto
    have "digitVal c \<noteq> None" using decimal_digits [OF b(1), of c] cr by simp
    moreover have "digitVal (CHR ''-'') = None" "digitVal (CHR ''+'') = None"
      by (simp_all add: digitVal_def)
    ultimately have nosign: "c \<noteq> CHR ''-''" "c \<noteq> CHR ''+''" by auto
    show ?thesis using False r p cr nosign
      by (simp add: Atoi_def Itoa_def inInt64_def maxInt64_def)
  qed
qed

subsection \<open>The calendar\<close>

lemma div_bounds:
  fixes a b :: int
  assumes "0 < b"
  shows "b * (a div b) \<le> a" and "a < b * (a div b) + b"
  using assms mult_div_mod_eq [of b a] pos_mod_bound [of b a] pos_mod_sign [of b a] by linarith+


lemma year_lower:
  fixes q n a b c :: int
  assumes "146097 * q \<le> 400 * n"
    and "4 * a \<le> x" and "x < 100 * b + 100" and "400 * c \<le> x" and "x = q - 1"
  shows "365 * x + a - b + c \<le> n"
  using assms by linarith

lemma year_upper:
  fixes q n a b c :: int
  assumes "400 * n < 146097 * q + 146097"
    and "x < 4 * a + 4" and "100 * b \<le> x" and "x < 400 * c + 400" and "x = q + 2"
  shows "n < 365 * x + a - b + c"
  using assms by linarith

lemma yearOfDay_bracket:
  "daysBeforeYear (yearOfDay n) \<le> n \<and> n < daysBeforeYear (yearOfDay n + 1)"
proof -
  define q where "q = (400 * n) div 146097"
  have q: "146097 * q \<le> 400 * n" "400 * n < 146097 * q + 146097"
    using div_bounds [where b = 146097 and a = "400 * n"] by (simp_all add: q_def)
  have a: "daysBeforeYear q \<le> n"
    unfolding daysBeforeYear_def
    by (rule year_lower [OF q(1) div_bounds(1) div_bounds(2) div_bounds(1)]) simp_all
  have b: "n < daysBeforeYear (q + 3)"
    unfolding daysBeforeYear_def
    by (rule year_upper [OF q(2) div_bounds(2) div_bounds(1) div_bounds(2), where x = "q + 3 - 1"]) simp_all
  show ?thesis
    using a b unfolding yearOfDay_def Let_def q_def [symmetric]
    by (auto simp: algebra_simps)
qed

lemma div_pred:
  fixes y b :: int
  assumes "0 < b"
  shows "(y - 1) div b = (if y mod b = 0 then y div b - 1 else y div b)"
proof (cases "y mod b = 0")
  case True
  have "y - 1 = b * (y div b - 1) + (b - 1)"
    using True mult_div_mod_eq [of b y] by (simp add: algebra_simps)
  then have "(y - 1) div b = y div b - 1"
    using assms by (intro int_div_pos_eq [where r = "b - 1"]) simp_all
  with True show ?thesis by simp
next
  case False
  have pos: "0 < y mod b" using False pos_mod_sign [OF assms, of y] by linarith
  have "y - 1 = b * (y div b) + (y mod b - 1)"
    using mult_div_mod_eq [of b y] by simp
  then have "(y - 1) div b = y div b"
    using assms pos pos_mod_bound [OF assms, of y]
    by (intro int_div_pos_eq [where r = "y mod b - 1"]) simp_all
  with False show ?thesis by simp
qed

lemma year_length:
  "daysBeforeYear (y + 1) - daysBeforeYear y = (if isLeap y then 366 else 365)"
proof -
  have m: "y mod 400 = 0 \<Longrightarrow> y mod 100 = 0" "y mod 100 = 0 \<Longrightarrow> y mod 4 = 0"
    by (auto simp: mod_eq_0_iff_dvd elim: dvd_trans [rotated])
  have a: "(y - 1) div 4 = (if y mod 4 = 0 then y div 4 - 1 else y div 4)"
    by (rule div_pred) simp
  have b: "(y - 1) div 100 = (if y mod 100 = 0 then y div 100 - 1 else y div 100)"
    by (rule div_pred) simp
  have c: "(y - 1) div 400 = (if y mod 400 = 0 then y div 400 - 1 else y div 400)"
    by (rule div_pred) simp
  show ?thesis
  proof (cases "y mod 4 = 0")
    case False
    with m have "y mod 100 \<noteq> 0" "y mod 400 \<noteq> 0" by auto
    with False show ?thesis
      unfolding daysBeforeYear_def isLeap_def by (simp add: a b c)
  next
    case y4: True
    show ?thesis
    proof (cases "y mod 100 = 0")
      case False
      with m have "y mod 400 \<noteq> 0" by auto
      with False y4 show ?thesis
        unfolding daysBeforeYear_def isLeap_def by (simp add: a b c)
    next
      case True
      with y4 show ?thesis
        unfolding daysBeforeYear_def isLeap_def by (cases "y mod 400 = 0") (simp_all add: a b c)
    qed
  qed
qed

lemma sum_monthLengths: "sum_list (monthLengths y) = (if isLeap y then 366 else 365)"
  by (simp add: monthLengths_def)

lemma monthDay_sound:
  "0 \<le> r \<Longrightarrow> r < sum_list ls \<Longrightarrow> monthDay ls m r = (m', d) \<Longrightarrow>
   \<exists>k < length ls. m' = m + int k \<and> 1 \<le> d \<and> d \<le> ls ! k \<and> sum_list (take k ls) + d - 1 = r"
proof (induction ls arbitrary: m r)
  case Nil
  then show ?case by simp
next
  case (Cons l ls)
  show ?case
  proof (cases "r < l")
    case True
    with Cons.prems have "m' = m" "d = r + 1" by simp_all
    with True Cons.prems(1) show ?thesis by (intro exI [of _ 0]) simp
  next
    case False
    with Cons.prems have md: "monthDay ls (m + 1) (r - l) = (m', d)" by simp
    have "0 \<le> r - l" "r - l < sum_list ls" using False Cons.prems by simp_all
    from Cons.IH [OF this md] obtain k where k: "k < length ls" "m' = m + 1 + int k" "1 \<le> d"
      "d \<le> ls ! k" "sum_list (take k ls) + d - 1 = r - l" by blast
    then show ?thesis by (intro exI [of _ "Suc k"]) simp
  qed
qed

lemma civil_sound:
  assumes "civil n = (y, m, d)"
  shows "1 \<le> m \<and> m \<le> 12 \<and> 1 \<le> d \<and> d \<le> daysIn m y \<and> dayNumber y m d = n \<and> y = yearOfDay n"
proof -
  from assms have y: "y = yearOfDay n"
    and md: "monthDay (monthLengths y) 1 (n - daysBeforeYear y) = (m, d)"
    by (auto simp: civil_def Let_def split: prod.splits)
  have br: "daysBeforeYear y \<le> n" "n < daysBeforeYear (y + 1)"
    using yearOfDay_bracket [of n] y by simp_all
  have r: "0 \<le> n - daysBeforeYear y" "n - daysBeforeYear y < sum_list (monthLengths y)"
    using br year_length [of y] sum_monthLengths [of y] by (simp_all split: if_splits)
  from monthDay_sound [OF r md] obtain k where k: "k < length (monthLengths y)" "m = 1 + int k"
    "1 \<le> d" "d \<le> monthLengths y ! k"
    "sum_list (take k (monthLengths y)) + d - 1 = n - daysBeforeYear y" by blast
  have len: "length (monthLengths y) = 12" by (simp add: monthLengths_def)
  have nk: "nat (m - 1) = k" using k(2) by simp
  show ?thesis
    using k len nk y by (simp add: daysIn_def dayNumber_def)
qed

lemma days_upper:
  fixes x a b c :: int
  assumes "4 * a \<le> x" "x < 100 * b + 100" "400 * c \<le> x"
  shows "400 * (365 * x + a - b + c) < 146097 * x + 400"
  using assms by (simp add: algebra_simps)

lemma days_lower:
  fixes x a b c :: int
  assumes "x < 4 * a + 4" "100 * b \<le> x" "x < 400 * c + 400"
  shows "146097 * x - 800 < 400 * (365 * x + a - b + c)"
  using assms by (simp add: algebra_simps)

lemma daysBeforeYear_less:
  assumes "y < z"
  shows "daysBeforeYear y < daysBeforeYear z"
proof -
  have u: "400 * daysBeforeYear y < 146097 * (y - 1) + 400"
    unfolding daysBeforeYear_def
    by (rule days_upper [OF div_bounds(1) div_bounds(2) div_bounds(1)]) simp_all
  have l: "146097 * (z - 1) - 800 < 400 * daysBeforeYear z"
    unfolding daysBeforeYear_def
    by (rule days_lower [OF div_bounds(2) div_bounds(1) div_bounds(2)]) simp_all
  show ?thesis using u l assms by (simp add: algebra_simps)
qed

lemma yearOfDay_range:
  assumes "daysBeforeYear a \<le> n" "n < daysBeforeYear b"
  shows "a \<le> yearOfDay n \<and> yearOfDay n < b"
proof -
  have br: "daysBeforeYear (yearOfDay n) \<le> n" "n < daysBeforeYear (yearOfDay n + 1)"
    using yearOfDay_bracket [of n] by simp_all
  have "\<not> yearOfDay n + 1 \<le> a"
  proof
    assume "yearOfDay n + 1 \<le> a"
    then have "yearOfDay n + 1 = a \<or> yearOfDay n + 1 < a" by linarith
    then have "daysBeforeYear (yearOfDay n + 1) \<le> daysBeforeYear a"
      using daysBeforeYear_less [of "yearOfDay n + 1" a] by auto
    with br assms show False by linarith
  qed
  moreover have "\<not> b \<le> yearOfDay n"
  proof
    assume "b \<le> yearOfDay n"
    then have "b = yearOfDay n \<or> b < yearOfDay n" by linarith
    then have "daysBeforeYear b \<le> daysBeforeYear (yearOfDay n)"
      using daysBeforeYear_less [of b "yearOfDay n"] by auto
    with br assms show False by linarith
  qed
  ultimately show ?thesis by linarith
qed


subsection \<open>Formatting and parsing the fields of a timestamp\<close>

lemma decimal_digit: "n < 10 \<Longrightarrow> decimal n = [digitChar n]"
  by (subst decimal.simps) simp

lemma decimal_more: "10 \<le> n \<Longrightarrow> decimal n = decimal (n div 10) @ [digitChar (n mod 10)]"
  by (subst decimal.simps) simp

lemma digitChar_0: "digitChar 0 = CHR ''0''"
  by (simp add: digitChar_def)

lemma appendInt2:
  assumes "0 \<le> x" "x < 100"
  shows "appendInt x 2 = [digitChar (x div 10), digitChar (x mod 10)]"
proof (cases "x < 10")
  case True
  with assms show ?thesis
    by (simp add: appendInt_def decimal_digit digitChar_0 numeral_2_eq_2)
next
  case False
  then have "x div 10 < 10" using assms by linarith
  with False assms show ?thesis
    by (simp add: appendInt_def decimal_more decimal_digit)
qed

lemma appendInt4:
  assumes "0 \<le> x" "x < 10000"
  shows "appendInt x 4 =
    [digitChar (x div 1000), digitChar (x div 100 mod 10), digitChar (x div 10 mod 10), digitChar (x mod 10)]"
proof -
  have r: "replicate 3 c = [c, c, c]" "replicate 2 c = [c, c]" for c :: char
    by (simp_all add: numeral_3_eq_3 numeral_2_eq_2)
  have dd: "x div 10 div 10 = x div 100" "x div 10 div 10 div 10 = x div 1000"
    "x div 100 div 10 = x div 1000"
    by (simp_all add: div_mult2_eq [symmetric])
  consider "x < 10" | "10 \<le> x" "x < 100" | "100 \<le> x" "x < 1000" | "1000 \<le> x"
    by linarith
  then show ?thesis
  proof cases
    case 1
    with assms show ?thesis
      by (simp add: appendInt_def decimal_digit digitChar_0 r)
  next
    case 2
    then have "x div 10 < 10" "x div 100 = 0" "x div 1000 = 0" by simp_all
    with 2 assms show ?thesis
      by (simp add: appendInt_def decimal_more decimal_digit digitChar_0 r)
  next
    case 3
    then have "10 \<le> x" "10 \<le> x div 10" "x div 100 < 10" "x div 1000 = 0" by simp_all
    with 3 assms show ?thesis
      by (simp add: appendInt_def decimal_more decimal_digit digitChar_0 dd)
  next
    case 4
    then have "10 \<le> x" "10 \<le> x div 10" "10 \<le> x div 100" "x div 1000 < 10" using assms by simp_all
    with 4 assms show ?thesis
      by (simp add: appendInt_def decimal_more decimal_digit digitChar_0 dd)
  qed
qed

lemma getnum_appendInt:
  assumes "0 \<le> x" "x < 100"
  shows "getnum (appendInt x 2 @ r) fixed = Some (x, r)"
proof -
  have d: "0 \<le> x div 10" "x div 10 < 10" "0 \<le> x mod 10" "x mod 10 < 10" using assms by simp_all
  show ?thesis
    using d by (simp add: appendInt2 [OF assms] getnum_def digitVal_digitChar)
qed

lemma getYear_digits:
  assumes "digitVal c1 = Some v1" "digitVal c2 = Some v2" "digitVal c3 = Some v3" "digitVal c4 = Some v4"
  shows "getYear (c1 # c2 # c3 # c4 # r) = Some (((v1 * 10 + v2) * 10 + v3) * 10 + v4, r)"
  using assms by (simp add: getYear_def digitsValue_def)

lemma digits4:
  fixes x :: int
  shows "((x div 1000 * 10 + x div 100 mod 10) * 10 + x div 10 mod 10) * 10 + x mod 10 = x"
proof -
  have a1: "x div 100 div 10 = x div 1000" and a2: "x div 10 div 10 = x div 100"
    by (simp_all add: div_mult2_eq [symmetric])
  have e1: "x div 1000 * 10 + x div 100 mod 10 = x div 100"
    unfolding a1 [symmetric] by (rule div_mult_mod_eq)
  have e2: "x div 100 * 10 + x div 10 mod 10 = x div 10"
    unfolding a2 [symmetric] by (rule div_mult_mod_eq)
  have e3: "x div 10 * 10 + x mod 10 = x"
    by (rule div_mult_mod_eq)
  show ?thesis unfolding e1 e2 e3 ..
qed

lemma getYear_appendInt:
  assumes "0 \<le> x" "x < 10000"
  shows "getYear (appendInt x 4 @ r) = Some (x, r)"
proof -
  have d: "0 \<le> x div 1000" "x div 1000 < 10" "0 \<le> x div 100 mod 10" "x div 100 mod 10 < 10"
    "0 \<le> x div 10 mod 10" "x div 10 mod 10 < 10" "0 \<le> x mod 10" "x mod 10 < 10"
    using assms by simp_all
  have "getYear (appendInt x 4 @ r) =
      Some (((x div 1000 * 10 + x div 100 mod 10) * 10 + x div 10 mod 10) * 10 + x mod 10, r)"
    unfolding appendInt4 [OF assms] append_Cons append_Nil
    by (rule getYear_digits) (simp_all only: digitVal_digitChar d)
  then show ?thesis unfolding digits4 .
qed

lemma skipChar_Cons: "skipChar c (c # r) = Some r"
  by (simp add: skipChar_def)

lemma daysIn_le_31:
  assumes "1 \<le> m" "m \<le> 12"
  shows "daysIn m y \<le> 31"
proof -
  from assms have "m = 1 \<or> m = 2 \<or> m = 3 \<or> m = 4 \<or> m = 5 \<or> m = 6 \<or> m = 7 \<or> m = 8
      \<or> m = 9 \<or> m = 10 \<or> m = 11 \<or> m = 12" by arith
  then show ?thesis
    by (elim disjE) (simp_all add: daysIn_def monthLengths_def)
qed

lemma formatZone_head:
  "\<exists>c r. formatZone off = c # r \<and> c \<noteq> CHR ''.'' \<and> c \<noteq> CHR '',''"
  by (simp add: formatZone_def Let_def)

lemma getFraction_formatZone: "getFraction (formatZone off) = (0, formatZone off)"
proof -
  obtain c r where z: "formatZone off = c # r" "c \<noteq> CHR ''.''" "c \<noteq> CHR '',''"
    using formatZone_head by blast
  then show ?thesis
    by (cases r) (simp_all add: getFraction_def)
qed

lemma quot_60:
  assumes "off mod 60 = 0"
  shows "\<bar>quot off 60\<bar> * 60 = \<bar>off\<bar>" and "(quot off 60 < 0) = (off < 0)"
proof -
  have a: "\<bar>off\<bar> mod 60 = 0" using assms by (simp add: abs_if zmod_zminus1_eq_if)
  have q: "\<bar>quot off 60\<bar> = \<bar>off\<bar> div 60"
    by (simp add: quot_def abs_mult sgn_if)
  show "\<bar>quot off 60\<bar> * 60 = \<bar>off\<bar>"
    unfolding q using a div_mult_mod_eq [of "\<bar>off\<bar>" 60] by simp
  then show "(quot off 60 < 0) = (off < 0)"
    by (auto simp: quot_def sgn_if mult_less_0_iff split: if_splits)
qed

lemma getZone_signed:
  assumes "0 \<le> h" "h < 100" "0 \<le> m" "m < 100" "h \<le> 24" "m \<le> 60"
  shows "getZone (CHR ''+'' # appendInt h 2 @ '':'' @ appendInt m 2) = Some ((h * 60 + m) * 60, [])"
    and "getZone (CHR ''-'' # appendInt h 2 @ '':'' @ appendInt m 2) = Some (- ((h * 60 + m) * 60), [])"
proof -
  have d: "0 \<le> h div 10" "h div 10 < 10" "0 \<le> h mod 10" "h mod 10 < 10"
    "0 \<le> m div 10" "m div 10 < 10" "0 \<le> m mod 10" "m mod 10 < 10" using assms by simp_all
  have g: "getnum [digitChar (h div 10), digitChar (h mod 10)] True = Some (h, [])"
    "getnum [digitChar (m div 10), digitChar (m mod 10)] True = Some (m, [])"
    using d by (simp_all add: getnum_def digitVal_digitChar)
  show "getZone (CHR ''+'' # appendInt h 2 @ '':'' @ appendInt m 2) = Some ((h * 60 + m) * 60, [])"
    using assms g by (simp add: getZone_def appendInt2 numeral_3_eq_3)
  show "getZone (CHR ''-'' # appendInt h 2 @ '':'' @ appendInt m 2) = Some (- ((h * 60 + m) * 60), [])"
    using assms g by (simp add: getZone_def appendInt2 numeral_3_eq_3)
qed

lemma getZone_formatZone:
  assumes "off mod 60 = 0" "\<bar>off\<bar> < 90000"
  shows "getZone (formatZone off) = Some (off, [])"
proof (cases "off = 0")
  case True
  then show ?thesis by (simp add: formatZone_def getZone_def)
next
  case False
  define z where "z = \<bar>quot off 60\<bar>"
  have z60: "z * 60 = \<bar>off\<bar>" and neg: "(quot off 60 < 0) = (off < 0)"
    using quot_60 [OF assms(1)] by (simp_all add: z_def)
  have z: "0 \<le> z" "z < 1500" using z60 assms(2) by (simp_all add: z_def)
  have b: "0 \<le> z div 60" "z div 60 < 100" "0 \<le> z mod 60" "z mod 60 < 100" "z div 60 \<le> 24" "z mod 60 \<le> 60"
    using z by simp_all
  have v: "(z div 60 * 60 + z mod 60) * 60 = \<bar>off\<bar>"
    using z60 by simp
  show ?thesis
  proof (cases "off < 0")
    case True
    with False neg getZone_signed(2) [OF b] v show ?thesis
      by (simp add: formatZone_def Let_def z_def [symmetric])
  next
    case pos: False
    with False neg getZone_signed(1) [OF b] v show ?thesis
      by (simp add: formatZone_def Let_def z_def [symmetric])
  qed
qed

subsection \<open>Parsing what Format wrote\<close>

lemma Parse_fields:
  assumes y: "0 \<le> y" "y < 10000" and m: "1 \<le> m" "m \<le> 12" and d: "1 \<le> d" "d \<le> daysIn m y"
    and h: "0 \<le> h" "h < 24" and mi: "0 \<le> mi" "mi < 60" and s: "0 \<le> s" "s < 60"
    and z: "getFraction z = (0, z)" "getZone z = Some (off, [])"
  shows "ParseRFC3339 (appendInt y 4 @ ''-'' @ appendInt m 2 @ ''-'' @ appendInt d 2 @ ''T''
           @ appendInt h 2 @ '':'' @ appendInt mi 2 @ '':'' @ appendInt s 2 @ z)
         = Some \<lparr>unixNano = ((dayNumber y m d - unixEpochDay) * 86400 + h * 3600 + mi * 60 + s - off)
                    * 1000000000, zoneOffset = off\<rparr>"
proof -
  have d100: "0 \<le> d" "d < 100" using d daysIn_le_31 [OF m, of y] by simp_all
  have n: "getnum (appendInt m 2 @ r) f = Some (m, r)" "getnum (appendInt d 2 @ r) f = Some (d, r)"
    "getnum (appendInt h 2 @ r) f = Some (h, r)" "getnum (appendInt mi 2 @ r) f = Some (mi, r)"
    "getnum (appendInt s 2 @ r) f = Some (s, r)" for r f
    using m h mi s d100 by (simp_all add: getnum_appendInt)
  show ?thesis
    unfolding ParseRFC3339_def
    using m d h mi s z
    by (simp add: getYear_appendInt [OF y] n skipChar_Cons)
qed

lemma Parse_Format:
  assumes years: "- 62167219200 \<le> unixNano t div 1000000000 + zoneOffset t"
      "unixNano t div 1000000000 + zoneOffset t < 253402300800"
    and zone: "zoneOffset t mod 60 = 0" "\<bar>zoneOffset t\<bar> < 90000"
  shows "ParseRFC3339 (FormatRFC3339 t)
         = Some (t\<lparr>unixNano := unixNano t div 1000000000 * 1000000000\<rparr>)"
proof -
  define local where "local = unixNano t div 1000000000 + zoneOffset t"
  define n where "n = local div 86400 + unixEpochDay"
  define rem where "rem = local mod 86400"
  obtain y m d where c: "civil n = (y, m, d)" by (cases "civil n") auto
  from civil_sound [OF c] have md: "1 \<le> m" "m \<le> 12" "1 \<le> d" "d \<le> daysIn m y"
    and dn: "dayNumber y m d = n" and yy: "y = yearOfDay n" by blast+
  have nb: "daysBeforeYear 0 \<le> n" "n < daysBeforeYear 10000"
    using years by (simp_all add: n_def local_def [symmetric] unixEpochDay_def daysBeforeYear_def)
  from yearOfDay_range [OF nb] yy have y: "0 \<le> y" "y < 10000" by simp_all
  have r: "0 \<le> rem" "rem < 86400" by (simp_all add: rem_def)
  have hms: "0 \<le> rem div 3600" "rem div 3600 < 24" "0 \<le> rem mod 3600 div 60" "rem mod 3600 div 60 < 60"
    "0 \<le> rem mod 60" "rem mod 60 < 60"
    using r by simp_all
  have tod: "rem div 3600 * 3600 + rem mod 3600 div 60 * 60 + rem mod 60 = rem"
  proof -
    have "rem mod 3600 mod 60 = rem mod 60" by (simp add: mod_mod_cancel)
    then have "rem mod 3600 div 60 * 60 + rem mod 60 = rem mod 3600"
      using div_mult_mod_eq [of "rem mod 3600" 60] by simp
    then show ?thesis using div_mult_mod_eq [of rem 3600] by linarith
  qed
  have whole: "(n - unixEpochDay) * 86400 + rem = local"
    using div_mult_mod_eq [of local 86400] by (simp add: n_def rem_def)
  have f: "FormatRFC3339 t = appendInt y 4 @ ''-'' @ appendInt m 2 @ ''-'' @ appendInt d 2 @ ''T''
           @ appendInt (rem div 3600) 2 @ '':'' @ appendInt (rem mod 3600 div 60) 2 @ '':''
           @ appendInt (rem mod 60) 2 @ formatZone (zoneOffset t)"
    using c by (simp add: FormatRFC3339_def Let_def local_def [symmetric] n_def [symmetric] rem_def [symmetric])
  have v: "(dayNumber y m d - unixEpochDay) * 86400 + rem div 3600 * 3600 + rem mod 3600 div 60 * 60
      + rem mod 60 - zoneOffset t = unixNano t div 1000000000"
    using tod whole dn by (simp add: local_def)
  have rec: "\<lparr>unixNano = a, zoneOffset = zoneOffset t\<rparr> = t\<lparr>unixNano := a\<rparr>" for a
    by (cases t) simp
  show ?thesis
    unfolding f Parse_fields [OF y md hms getFraction_formatZone getZone_formatZone [OF zone]] v rec ..
qed

section \<open>Properties of the bucket\<close>

subsection \<open>The loop\<close>

lemma walkLoop_return:
  "attempt env b ip w = (r, w1) \<Longrightarrow> r \<noteq> Some TxFailedErr \<Longrightarrow> walkLoop env b ip w = Some (r, w1)"
  by (subst walkLoop.simps) (auto split: option.splits)

lemma walkLoop_retry:
  "attempt env b ip w = (Some TxFailedErr, w1) \<Longrightarrow> walkLoop env b ip w = walkLoop env b ip w1"
  by (subst walkLoop.simps) simp

lemma walkLoop_last:
  assumes run: "walkLoop env b ip w = Some (r, w')"
    and start: "I w"
    and step: "\<And>u u1. I u \<Longrightarrow> attempt env b ip u = (Some TxFailedErr, u1) \<Longrightarrow> I u1"
  shows "\<exists>w0. I w0 \<and> attempt env b ip w0 = (r, w') \<and> r \<noteq> Some TxFailedErr"
proof -
  have "(\<forall>u u1. I u \<longrightarrow> attempt env b ip u = (Some TxFailedErr, u1) \<longrightarrow> I u1) \<longrightarrow> I w \<longrightarrow>
      (\<exists>w0. I w0 \<and> attempt env b ip w0 = (r, w') \<and> fst (r, w') \<noteq> Some TxFailedErr)"
  proof (rule walkLoop.raw_induct [where P = "\<lambda>e c i u y.
      (\<forall>u u1. I u \<longrightarrow> attempt e c i u = (Some TxFailedErr, u1) \<longrightarrow> I u1) \<longrightarrow> I u \<longrightarrow>
      (\<exists>w0. I w0 \<and> attempt e c i w0 = y \<and> fst y \<noteq> Some TxFailedErr)", OF _ run])
    fix loop e c i u y
    assume IH: "\<And>e c i u y. loop e c i u = Some y \<Longrightarrow>
        (\<forall>u u1. I u \<longrightarrow> attempt e c i u = (Some TxFailedErr, u1) \<longrightarrow> I u1) \<longrightarrow> I u \<longrightarrow>
        (\<exists>w0. I w0 \<and> attempt e c i w0 = y \<and> fst y \<noteq> Some TxFailedErr)"
      and body: "(case attempt e c i u of
                    (None, w1) \<Rightarrow> Some (None, w1)
                  | (Some err, w1) \<Rightarrow>
                      if err \<noteq> TxFailedErr then Some (Some err, w1) else loop e c i w1) = Some y"
    show "(\<forall>u u1. I u \<longrightarrow> attempt e c i u = (Some TxFailedErr, u1) \<longrightarrow> I u1) \<longrightarrow> I u \<longrightarrow>
        (\<exists>w0. I w0 \<and> attempt e c i w0 = y \<and> fst y \<noteq> Some TxFailedErr)"
    proof (intro impI)
      assume st: "\<forall>u u1. I u \<longrightarrow> attempt e c i u = (Some TxFailedErr, u1) \<longrightarrow> I u1" and iu: "I u"
      obtain r1 w1 where a: "attempt e c i u = (r1, w1)" by (cases "attempt e c i u") auto
      show "\<exists>w0. I w0 \<and> attempt e c i w0 = y \<and> fst y \<noteq> Some TxFailedErr"
      proof (cases "r1 = Some TxFailedErr")
        case True
        with a body have l: "loop e c i w1 = Some y" by simp
        have "I w1" using st iu a True by blast
        with IH [OF l] st show ?thesis by blast
      next
        case False
        with a body have "y = (r1, w1)" by (auto split: option.splits if_splits)
        with a iu False show ?thesis by auto
      qed
    qed
  qed
  with start step show ?thesis by auto
qed

subsection \<open>What the steps of an attempt leave unchanged\<close>

lemma arrive_fields [simp]:
  "sent (arrive env c w) = sent w @ [c]"
  "committed (arrive env c w) = committed w"
  "watched (arrive env c w) = watched w"
  "nowReads (arrive env c w) = nowReads w"
  by (simp_all add: arrive_def Let_def)

lemma arrive_quiet:
  "others env (length (sent w)) = [] \<Longrightarrow> db (arrive env c w) = db w \<and> touched (arrive env c w) = touched w"
  by (simp add: arrive_def)

lemma tx_Close_fields [simp]:
  "sent (tx_Close env w) = sent w @ [UNWATCH]"
  "committed (tx_Close env w) = committed w"
  "nowReads (tx_Close env w) = nowReads w"
  by (simp_all add: tx_Close_def)

lemma refill_frame:
  "refill env b tokens t w = (x, w1) \<Longrightarrow> \<exists>k. w1 = w\<lparr>nowReads := k\<rparr>"
  by (auto simp: refill_def Now_def Let_def split: if_splits intro: exI [of _ "nowReads w"])

lemma decide_frame:
  assumes "decide env b reply w = (x, w1)"
  shows "\<exists>k. w1 = w\<lparr>nowReads := k\<rparr>"
proof (cases reply)
  case (Inl err)
  with assms show ?thesis
    by (auto simp: decide_def Now_def split: if_splits intro: exI [of _ "nowReads w"])
next
  case (Inr r)
  show ?thesis
  proof (cases "decodeRecord r")
    case (Inl e)
    with Inr assms show ?thesis by (auto simp: decide_def intro: exI [of _ "nowReads w"])
  next
    case dec: (Inr p)
    obtain tokens t where p: "p = (tokens, t)" by (cases p) auto
    obtain y w2 where rf: "refill env b tokens t w = (y, w2)" by (cases "refill env b tokens t w") auto
    from refill_frame [OF rf] obtain k where k: "w2 = w\<lparr>nowReads := k\<rparr>" by blast
    from assms Inr dec p rf have "w1 = w2"
      by (auto simp: decide_def split: sum.splits if_splits prod.splits)
    with k show ?thesis by blast
  qed
qed

subsection \<open>The outcomes of one attempt\<close>

lemma tx_Get_fields:
  assumes "tx_Get env key w = (reply, w1)"
  shows "sent w1 = sent w @ [GET key]" "committed w1 = committed w" "nowReads w1 = nowReads w"
    "watched w1 = watched w" "w1 = arrive env (GET key) w"
  using assms by (auto simp: tx_Get_def Let_def split: option.splits)

lemma tx_Get_reply:
  assumes "tx_Get env key w = (reply, w1)"
  shows "reply \<noteq> Inl TxFailedErr"
  using assms by (auto simp: tx_Get_def Let_def split: option.splits)

lemma decide_error:
  assumes "decide env b reply w = (Inl e, w1)" "reply \<noteq> Inl TxFailedErr"
  shows "e \<noteq> TxFailedErr"
proof (cases reply)
  case (Inl err)
  with assms show ?thesis by (auto simp: decide_def Now_def split: if_splits)
next
  case (Inr r)
  show ?thesis
  proof (cases "decodeRecord r")
    case (Inl e')
    then have "e' \<noteq> TxFailedErr"
      by (auto simp: decodeRecord_def Let_def split: if_splits sum.splits option.splits)
    with Inl Inr assms show ?thesis by (auto simp: decide_def)
  next
    case dec: (Inr p)
    obtain tokens t where p: "p = (tokens, t)" by (cases p) auto
    obtain y w2 where rf: "refill env b tokens t w = (y, w2)" by (cases "refill env b tokens t w") auto
    have "y \<noteq> Inl TxFailedErr" using rf
      by (auto simp: refill_def Now_def Let_def split: if_splits)
    with assms Inr dec p rf show ?thesis
      by (auto simp: decide_def split: sum.splits if_splits prod.splits)
  qed
qed

lemma tx_TxPipelined_Set_outcome:
  assumes "tx_TxPipelined_Set env key val ttl w = (r, w1)"
  shows "sent w1 = sent w @ [EXEC_SET key val ttl]" "nowReads w1 = nowReads w"
    "r = None \<Longrightarrow> committed w1 = committed w @ [(key, val, ttl)]"
    "r \<noteq> None \<Longrightarrow> committed w1 = committed w"
    "r = Some TxFailedErr \<Longrightarrow> faults env (length (sent w)) = None \<and> touched (arrive env (EXEC_SET key val ttl) w)"
  using assms by (auto simp: tx_TxPipelined_Set_def Let_def split: option.splits if_splits)

lemma attempt_outcome:
  assumes "attempt env b ip w = (r, w')"
  obtains (watch_failed) msg where
      "faults env (length (sent w)) = Some msg" "r = Some (StoreError msg)"
      "w' = tx_Close env (arrive env (WATCH (storeKey ip)) w)"
  | (refused) reply w2 e w3 where
      "faults env (length (sent w)) = None"
      "tx_Get env (storeKey ip)
         ((arrive env (WATCH (storeKey ip)) w)\<lparr>watched := [storeKey ip], touched := False\<rparr>) = (reply, w2)"
      "decide env b reply w2 = (Inl e, w3)" "r = Some e" "w' = tx_Close env w3"
  | (written) reply w2 tokens t w3 w4 where
      "faults env (length (sent w)) = None"
      "tx_Get env (storeKey ip)
         ((arrive env (WATCH (storeKey ip)) w)\<lparr>watched := [storeKey ip], touched := False\<rparr>) = (reply, w2)"
      "decide env b reply w2 = (Inr (tokens, t), w3)"
      "tx_TxPipelined_Set env (storeKey ip) (encodeRecord (wrap64 (tokens - 1)) t) (dur b) w3 = (r, w4)"
      "w' = tx_Close env w4"
proof (cases "faults env (length (sent w))")
  case (Some msg)
  with assms have "r = Some (StoreError msg)" "w' = tx_Close env (arrive env (WATCH (storeKey ip)) w)"
    by (auto simp: attempt_def Watch_def tx_Watch_def Let_def)
  with Some show ?thesis by (rule watch_failed)
next
  case None
  define wa where "wa = (arrive env (WATCH (storeKey ip)) w)\<lparr>watched := [storeKey ip], touched := False\<rparr>"
  obtain reply w2 where g: "tx_Get env (storeKey ip) wa = (reply, w2)"
    by (cases "tx_Get env (storeKey ip) wa") auto
  obtain x w3 where d: "decide env b reply w2 = (x, w3)" by (cases "decide env b reply w2") auto
  have body: "attempt env b ip w = (case txBody env b ip wa of (r, w2) \<Rightarrow> (r, tx_Close env w2))"
    using None by (simp add: attempt_def Watch_def tx_Watch_def Let_def wa_def)
  show ?thesis
  proof (cases x)
    case (Inl e)
    with assms body g d have "r = Some e" "w' = tx_Close env w3"
      by (auto simp: txBody_def)
    with None g d Inl show ?thesis unfolding wa_def by (intro refused) auto
  next
    case (Inr p)
    obtain tokens t where p: "p = (tokens, t)" by (cases p) auto
    obtain r4 w4 where e: "tx_TxPipelined_Set env (storeKey ip) (encodeRecord (wrap64 (tokens - 1)) t) (dur b) w3 = (r4, w4)"
      by (cases "tx_TxPipelined_Set env (storeKey ip) (encodeRecord (wrap64 (tokens - 1)) t) (dur b) w3") auto
    with assms body g d Inr p have "r = r4" "w' = tx_Close env w4"
      by (auto simp: txBody_def)
    with None g d Inr p e show ?thesis unfolding wa_def by (intro written) auto
  qed
qed

lemma attempt_conflict:
  assumes "attempt env b ip w = (Some TxFailedErr, w')"
  shows "committed w' = committed w"
    and "\<exists>v. sent w' = sent w @ [WATCH (storeKey ip), GET (storeKey ip), EXEC_SET (storeKey ip) v (dur b), UNWATCH]"
proof -
  from assms have "committed w' = committed w \<and>
    (\<exists>v. sent w' = sent w @ [WATCH (storeKey ip), GET (storeKey ip), EXEC_SET (storeKey ip) v (dur b), UNWATCH])"
  proof (cases rule: attempt_outcome)
    case (watch_failed msg)
    then show ?thesis by simp
  next
    case (refused reply w2 e w3)
    with decide_error [OF refused(3) tx_Get_reply [OF refused(2)]] show ?thesis by simp
  next
    case (written reply w2 tokens t w3 w4)
    from decide_frame [OF written(3)] obtain k where k: "w3 = w2\<lparr>nowReads := k\<rparr>" by blast
    from tx_Get_fields [OF written(2)] tx_TxPipelined_Set_outcome [OF written(4)] k written(5)
    show ?thesis by simp
  qed
  then show "committed w' = committed w"
    and "\<exists>v. sent w' = sent w @ [WATCH (storeKey ip), GET (storeKey ip), EXEC_SET (storeKey ip) v (dur b), UNWATCH]"
    by blast+
qed

subsection \<open>The stored value\<close>

lemma Split_no_separator: "sep \<notin> set s \<Longrightarrow> Split s sep = [s]"
  by (induction s) auto

lemma Split_at_separator: "sep \<notin> set a \<Longrightarrow> Split (a @ sep # c) sep = a # Split c sep"
  by (induction a) auto

lemma length_Split: "length (Split s sep) = Suc (count_list s sep)"
  by (induction s) (auto split: list.splits)

lemma digitChar_is_digit: "n < 10 \<Longrightarrow> digitChar n \<in> set ''0123456789''"
proof -
  assume "n < 10"
  then have "nat n < length ''0123456789''" by simp
  then show ?thesis unfolding digitChar_def by (rule nth_mem)
qed

lemma decimal_chars: "set (decimal n) \<subseteq> set ''0123456789''"
proof (induction n rule: decimal.induct)
  case (1 n)
  show ?case
  proof (cases "n < 10")
    case True
    then show ?thesis using digitChar_is_digit [of n] by (subst decimal.simps) simp
  next
    case False
    have "n mod 10 < 10" by simp
    from digitChar_is_digit [OF this] "1.IH" False show ?thesis
      by (subst decimal.simps) simp
  qed
qed

lemma bar_not_in_decimal: "CHR ''|'' \<notin> set (decimal n)"
  using decimal_chars [of n] by auto

lemma bar_not_in_Itoa: "CHR ''|'' \<notin> set (Itoa n)"
  by (simp add: Itoa_def bar_not_in_decimal)

lemma bar_not_in_appendInt: "CHR ''|'' \<notin> set (appendInt x k)"
  by (simp add: appendInt_def Let_def bar_not_in_decimal)

lemma bar_not_in_formatZone: "CHR ''|'' \<notin> set (formatZone off)"
  by (simp add: formatZone_def Let_def bar_not_in_appendInt)

lemma bar_not_in_Format: "CHR ''|'' \<notin> set (FormatRFC3339 t)"
  by (simp add: FormatRFC3339_def Let_def bar_not_in_appendInt bar_not_in_formatZone split: prod.splits)

lemma Split_encodeRecord: "Split (encodeRecord n t) (CHR ''|'') = [Itoa n, FormatRFC3339 t]"
  unfolding encodeRecord_def
  using Split_at_separator [OF bar_not_in_Itoa, of n "FormatRFC3339 t"]
    Split_no_separator [OF bar_not_in_Format, of t]
  by simp

lemma Parse_Format_truncates:
  "inRFC3339Range t \<Longrightarrow> ParseRFC3339 (FormatRFC3339 t) = Some (truncateSecond t)"
  unfolding inRFC3339Range_def truncateSecond_def by (intro Parse_Format) simp_all

lemma decode_encode:
  assumes "inInt64 n" "inRFC3339Range t"
  shows "decodeRecord (encodeRecord n t) = Inr (n, truncateSecond t)"
  by (simp add: decodeRecord_def Split_encodeRecord Atoi_Itoa [OF assms(1)]
      Parse_Format_truncates [OF assms(2)])

lemma truncateSecond_whole:
  "unixNano t mod 1000000000 = 0 \<Longrightarrow> truncateSecond t = t"
  unfolding truncateSecond_def using div_mult_mod_eq [of "unixNano t" 1000000000] by simp

lemma decodeRecord_cases:
  "(count_list r (CHR ''|'') \<noteq> 1 \<longrightarrow> decodeRecord r = Inl ErrBadSyntaxInStorage)
   \<and> (Split r (CHR ''|'') = [a, c] \<and> Atoi a = Inl e \<longrightarrow> decodeRecord r = Inl (NumError a e))
   \<and> (Split r (CHR ''|'') = [a, c] \<and> Atoi a = Inr n \<and> ParseRFC3339 c = None
        \<longrightarrow> decodeRecord r = Inl (ParseError c))"
  using length_Split [of r "CHR ''|''"] by (auto simp: decodeRecord_def Let_def)

lemma digitVal_range: "digitVal c = Some d \<Longrightarrow> 0 \<le> d \<and> d \<le> 9"
  by (auto simp: digitVal_def split: if_splits)

lemma foldl_parseStep_error: "foldl parseStep (Inl e) s = Inl e"
  by (induction s) (simp_all add: parseStep_def)




lemma attempt_refused:
  assumes "faults env (length (sent w)) = None"
    and "tx_Get env (storeKey ip)
           ((arrive env (WATCH (storeKey ip)) w)\<lparr>watched := [storeKey ip], touched := False\<rparr>) = (reply, w2)"
    and "decide env b reply w2 = (Inl e, w3)"
  shows "attempt env b ip w = (Some e, tx_Close env w3)"
  using assms by (simp add: attempt_def Watch_def tx_Watch_def txBody_def Let_def)

lemma attempt_written:
  assumes "faults env (length (sent w)) = None"
    and "tx_Get env (storeKey ip)
           ((arrive env (WATCH (storeKey ip)) w)\<lparr>watched := [storeKey ip], touched := False\<rparr>) = (reply, w2)"
    and "decide env b reply w2 = (Inr (tokens, t), w3)"
    and "tx_TxPipelined_Set env (storeKey ip) (encodeRecord (wrap64 (tokens - 1)) t) (dur b) w3 = (r, w4)"
  shows "attempt env b ip w = (r, tx_Close env w4)"
  using assms by (simp add: attempt_def Watch_def tx_Watch_def txBody_def Let_def)

lemma decodeRecord_error: "decodeRecord r = Inl e \<Longrightarrow> e \<noteq> TxFailedErr \<and> e \<noteq> RedisNil \<and> e \<noteq> ErrNoTokensAwailable"
  by (auto simp: decodeRecord_def Let_def split: if_splits sum.splits option.splits)

lemma decide_malformed: "decodeRecord r = Inl e \<Longrightarrow> decide env b (Inr r) w = (Inl e, w)"
  by (simp add: decide_def)


subsection \<open>The refill\<close>

lemma wrap64_id: "inInt64 x \<Longrightarrow> wrap64 x = x"
  by (simp add: wrap64_def inInt64_def minInt64_def maxInt64_def)

lemma quot_pos: "0 \<le> a \<Longrightarrow> 0 < b \<Longrightarrow> quot a b = a div b"
  by (cases "a = 0") (simp_all add: quot_def)

lemma Sub_exact:
  "inInt64 (unixNano now - unixNano t) \<Longrightarrow> Sub now t = unixNano now - unixNano t"
  by (simp add: Sub_def)

lemma refill_early:
  assumes "tokens < cap b" "Sub (clock env (nowReads w)) t < tokenAppendTime b"
  shows "refill env b tokens t w = (Inr (tokens, t), w\<lparr>nowReads := Suc (nowReads w)\<rparr>)"
  using assms by (simp add: refill_def Now_def)

lemma refill_full: "\<not> tokens < cap b \<Longrightarrow> refill env b tokens t w = (Inr (tokens, t), w)"
  by (simp add: refill_def)

lemma refill_due:
  assumes lt: "tokens < cap b" and pos: "0 < tokenAppendTime b"
    and rng: "inInt64 tokens" "inInt64 (cap b)" "inInt64 (cap b - tokens)"
    and p: "Sub (clock env (nowReads w)) t = p" "tokenAppendTime b \<le> p" "inInt64 p"
  defines "add \<equiv> min (p div tokenAppendTime b) (cap b - tokens)"
  shows "refill env b tokens t w =
      (if tokens + add = cap b
       then (Inr (cap b, clock env (Suc (nowReads w))), w\<lparr>nowReads := Suc (Suc (nowReads w))\<rparr>)
       else (Inr (tokens + add, Add t (add * tokenAppendTime b)), w\<lparr>nowReads := Suc (nowReads w)\<rparr>))"
    and "1 \<le> add" and "tokens + add \<le> cap b"
proof -
  have p0: "0 \<le> p" using pos p(2) by linarith
  have q: "quot p (tokenAppendTime b) = p div tokenAppendTime b"
    by (rule quot_pos [OF p0 pos])
  have q1: "1 \<le> p div tokenAppendTime b"
    using pos p(2) pos_imp_zdiv_pos_iff [of "tokenAppendTime b" p] by linarith
  show a1: "1 \<le> add" using q1 lt by (simp add: add_def)
  show a2: "tokens + add \<le> cap b" by (simp add: add_def)
  have "add * tokenAppendTime b \<le> p div tokenAppendTime b * tokenAppendTime b"
    using pos by (intro mult_right_mono) (simp_all add: add_def)
  also have "\<dots> \<le> p" using div_bounds(1) [OF pos, of p] by (simp add: mult.commute)
  finally have m: "add * tokenAppendTime b \<le> p" .
  have m0: "0 \<le> add * tokenAppendTime b" using a1 pos by simp
  have w1: "wrap64 (cap b - tokens) = cap b - tokens" by (rule wrap64_id [OF rng(3)])
  have w2: "wrap64 (tokens + add) = tokens + add"
    using a1 a2 rng by (intro wrap64_id) (simp add: inInt64_def)
  have w3: "wrap64 (add * tokenAppendTime b) = add * tokenAppendTime b"
    using m m0 p(3) by (intro wrap64_id) (simp add: inInt64_def minInt64_def)
  show "refill env b tokens t w =
      (if tokens + add = cap b
       then (Inr (cap b, clock env (Suc (nowReads w))), w\<lparr>nowReads := Suc (Suc (nowReads w))\<rparr>)
       else (Inr (tokens + add, Add t (add * tokenAppendTime b)), w\<lparr>nowReads := Suc (nowReads w)\<rparr>))"
    using lt pos p(1,2) w2 w3 wrap64_id [OF rng(2)]
    by (simp add: refill_def Now_def Let_def q w1 add_def [symmetric])
qed


subsection \<open>Attempts when nobody else writes\<close>

lemma arrive_quiet_db [simp]: "quiet env \<Longrightarrow> db (arrive env c w) = db w"
  by (simp add: arrive_def quiet_def)

lemma arrive_quiet_touched [simp]: "quiet env \<Longrightarrow> touched (arrive env c w) = touched w"
  by (simp add: arrive_def quiet_def)

lemma tx_Close_quiet_db [simp]: "quiet env \<Longrightarrow> db (tx_Close env w) = db w"
  by (simp add: tx_Close_def)

lemma tx_TxPipelined_Set_errors:
  "tx_TxPipelined_Set env key val ttl w = (Some e, w1) \<Longrightarrow> e = TxFailedErr \<or> (\<exists>msg. e = StoreError msg)"
  by (auto simp: tx_TxPipelined_Set_def Let_def split: option.splits if_splits)

lemma attempt_quiet_no_conflict:
  assumes "quiet env" "attempt env b ip w = (r, w')"
  shows "r \<noteq> Some TxFailedErr"
  using assms(2)
proof (cases rule: attempt_outcome)
  case (watch_failed msg)
  then show ?thesis by simp
next
  case (refused reply w2 e w3)
  with decide_error [OF refused(3) tx_Get_reply [OF refused(2)]] show ?thesis by simp
next
  case (written reply w2 tokens t w3 w4)
  from decide_frame [OF written(3)] obtain k where k: "w3 = w2\<lparr>nowReads := k\<rparr>" by blast
  have "touched w2 = False"
    using tx_Get_fields(5) [OF written(2)] assms(1) by simp
  then have "\<not> touched (arrive env (EXEC_SET (storeKey ip) (encodeRecord (wrap64 (tokens - 1)) t) (dur b)) w3)"
    using k assms(1) by simp
  with tx_TxPipelined_Set_outcome(5) [OF written(4)] show ?thesis by blast
qed

lemma attempt_rejected:
  assumes "attempt env b ip w = (Some ErrNoTokensAwailable, w')"
  shows "committed w' = committed w"
    and "sent w' = sent w @ [WATCH (storeKey ip), GET (storeKey ip), UNWATCH]"
    and "quiet env \<Longrightarrow> db w' = db w"
proof -
  from assms have "committed w' = committed w
      \<and> sent w' = sent w @ [WATCH (storeKey ip), GET (storeKey ip), UNWATCH]
      \<and> (quiet env \<longrightarrow> db w' = db w)"
  proof (cases rule: attempt_outcome)
    case (watch_failed msg)
    then show ?thesis by simp
  next
    case (refused reply w2 e w3)
    from decide_frame [OF refused(3)] obtain k where k: "w3 = w2\<lparr>nowReads := k\<rparr>" by blast
    from tx_Get_fields [OF refused(2)] k refused(5) show ?thesis by simp
  next
    case (written reply w2 tokens t w3 w4)
    with tx_TxPipelined_Set_errors [of env "storeKey ip" _ "dur b" w3 ErrNoTokensAwailable w4]
    show ?thesis by auto
  qed
  then show "committed w' = committed w"
    and "sent w' = sent w @ [WATCH (storeKey ip), GET (storeKey ip), UNWATCH]"
    and "quiet env \<Longrightarrow> db w' = db w" by blast+
qed

subsection \<open>What authorizes a write\<close>


lemma Sub_range: "inInt64 (Sub a c)"
  by (simp add: Sub_def Let_def inInt64_def minInt64_def maxInt64_def)




lemma decide_absent:
  "decide env b (Inl RedisNil) w = (Inr (cap b, clock env (nowReads w)), w\<lparr>nowReads := Suc (nowReads w)\<rparr>)"
  by (simp add: decide_def Now_def)

subsection \<open>An absent key\<close>


lemma tx_Get_absent:
  assumes "faults env (length (sent w)) = None" "db (arrive env (GET key) w) key = None"
  shows "tx_Get env key w = (Inl RedisNil, arrive env (GET key) w)"
  using assms by (simp add: tx_Get_def Let_def)

lemma tx_TxPipelined_Set_commit:
  assumes "faults env (length (sent w)) = None" "\<not> touched (arrive env (EXEC_SET key val ttl) w)"
  shows "fst (tx_TxPipelined_Set env key val ttl w) = None"
    and "committed (snd (tx_TxPipelined_Set env key val ttl w)) = committed w @ [(key, val, ttl)]"
    and "db (snd (tx_TxPipelined_Set env key val ttl w))
           = (db (arrive env (EXEC_SET key val ttl) w))(key \<mapsto> (val, ttl))"
  using assms by (simp_all add: tx_TxPipelined_Set_def Let_def)

lemma attempt_fresh:
  assumes q: "quiet env" and f: "faultless env" and a: "db w (storeKey ip) = None"
  shows "fst (attempt env b ip w) = None"
    and "committed (snd (attempt env b ip w))
           = committed w @ [(storeKey ip, encodeRecord (wrap64 (cap b - 1)) (clock env (nowReads w)), dur b)]"
    and "db (snd (attempt env b ip w)) (storeKey ip)
           = Some (encodeRecord (wrap64 (cap b - 1)) (clock env (nowReads w)), dur b)"
proof -
  let ?k = "storeKey ip"
  let ?wa = "(arrive env (WATCH ?k) w)\<lparr>watched := [?k], touched := False\<rparr>"
  let ?w2 = "arrive env (GET ?k) ?wa"
  let ?w3 = "?w2\<lparr>nowReads := Suc (nowReads ?w2)\<rparr>"
  let ?v = "encodeRecord (wrap64 (cap b - 1)) (clock env (nowReads w))"
  have fl: "faults env n = None" for n using f by (simp add: faultless_def)
  have g: "tx_Get env ?k ?wa = (Inl RedisNil, ?w2)"
    using q a by (intro tx_Get_absent fl) simp
  have d: "decide env b (Inl RedisNil) ?w2 = (Inr (cap b, clock env (nowReads w)), ?w3)"
    by (simp add: decide_absent)
  have nt: "\<not> touched (arrive env (EXEC_SET ?k ?v (dur b)) ?w3)"
    using q by simp
  obtain r w4 where e: "tx_TxPipelined_Set env ?k ?v (dur b) ?w3 = (r, w4)"
    by (cases "tx_TxPipelined_Set env ?k ?v (dur b) ?w3") auto
  from tx_TxPipelined_Set_commit [OF fl nt] e
  have r: "r = None" and c: "committed w4 = committed ?w3 @ [(?k, ?v, dur b)]"
    and s: "db w4 = (db (arrive env (EXEC_SET ?k ?v (dur b)) ?w3))(?k \<mapsto> (?v, dur b))"
    by simp_all
  have at: "attempt env b ip w = (r, tx_Close env w4)"
    by (rule attempt_written [OF fl g d e])
  show "fst (attempt env b ip w) = None" using at r by simp
  show "committed (snd (attempt env b ip w)) = committed w @ [(?k, ?v, dur b)]"
    using at c by simp
  show "db (snd (attempt env b ip w)) ?k = Some (?v, dur b)"
    using at s q by simp
qed

lemma result_of: "map_option fst x = Some r \<Longrightarrow> x = Some (r, snd (the x))"
  by (cases x) auto

lemma Walk_running: "Walk env b ctx w = Some (r, w') \<Longrightarrow> r \<noteq> Some (ErrorsNew ''redis core is nil'')
    \<Longrightarrow> walkLoop env b (ClientIP ctx) w = Some (r, w')"
  by (auto simp: Walk_def split: if_splits)

subsection \<open>The bounds of the stored tokens\<close>

lemma writtenBy_decode:
  assumes "writtenBy b v" "inInt64 (cap b)" "decodeRecord v = Inr (m, t')"
  shows "0 \<le> m \<and> m \<le> cap b"
proof -
  from assms(1) obtain n t where v: "v = encodeRecord n t" and n: "0 \<le> n" "n \<le> cap b"
    unfolding writtenBy_def by blast
  have "inInt64 n" using n assms(2) by (simp add: inInt64_def minInt64_def)
  from Atoi_Itoa [OF this] assms(3) have "m = n"
    unfolding v decodeRecord_def Split_encodeRecord by (auto simp: Let_def split: option.splits)
  with n show ?thesis by simp
qed

lemma refill_bounds:
  assumes v: "validBucket b" and n: "0 \<le> n" "n \<le> cap b"
    and r: "refill env b n t0 w = (Inr (tokens, t), w1)"
  shows "n \<le> tokens \<and> tokens \<le> cap b"
proof (cases "n < cap b")
  case False
  with r n show ?thesis by (simp add: refill_full)
next
  case True
  define p where "p = Sub (clock env (nowReads w)) t0"
  show ?thesis
  proof (cases "p < tokenAppendTime b")
    case early: True
    with refill_early [OF True, of env w t0] r True show ?thesis by (simp add: p_def)
  next
    case False
    have b: "0 < tokenAppendTime b" "inInt64 (cap b)" using v by (simp_all add: validBucket_def)
    have i: "inInt64 n" "inInt64 (cap b - n)"
      using n True b(2) by (simp_all add: inInt64_def minInt64_def)
    have ge: "tokenAppendTime b \<le> p" using False by simp
    have ip: "inInt64 p" unfolding p_def by (rule Sub_range)
    from refill_due [OF True b(1) i(1) b(2) i(2) p_def [symmetric] ge ip] r
    show ?thesis by (auto split: if_splits)
  qed
qed

lemma decide_bounds:
  assumes v: "validBucket b" and w: "\<And>s. reply = Inr s \<Longrightarrow> writtenBy b s"
    and d: "decide env b reply w = (Inr (tokens, t), w1)"
  shows "0 < tokens \<and> tokens \<le> cap b"
proof (cases reply)
  case (Inl err)
  with d v show ?thesis by (auto simp: decide_def Now_def validBucket_def split: if_splits)
next
  case (Inr s)
  have c: "inInt64 (cap b)" using v by (simp add: validBucket_def)
  show ?thesis
  proof (cases "decodeRecord s")
    case (Inl e)
    with Inr d show ?thesis by (simp add: decide_def)
  next
    case dec: (Inr q)
    obtain n t0 where q: "q = (n, t0)" by (cases q) auto
    from writtenBy_decode [OF w [OF Inr] c dec [unfolded q]] have n: "0 \<le> n" "n \<le> cap b" by simp_all
    obtain y w2 where rf: "refill env b n t0 w = (y, w2)" by (cases "refill env b n t0 w") auto
    from d Inr dec q rf have y: "y = Inr (tokens, t)" and pos: "0 < tokens"
      by (auto simp: decide_def split: sum.splits if_splits)
    from refill_bounds [OF v n rf [unfolded y]] pos show ?thesis by simp
  qed
qed

lemma writtenBy_encode: "0 \<le> n \<Longrightarrow> n \<le> cap b \<Longrightarrow> writtenBy b (encodeRecord n t)"
  unfolding writtenBy_def by blast

lemma foldl_storeWrittenBy:
  assumes "storeWrittenBy b d" "\<And>k v ttl. (k, Some (v, ttl)) \<in> set ws \<Longrightarrow> writtenBy b v"
  shows "storeWrittenBy b (foldl (\<lambda>d kv. d(fst kv := snd kv)) d ws)"
  using assms
proof (induction ws arbitrary: d)
  case Nil
  then show ?case by simp
next
  case (Cons x ws)
  have st: "storeWrittenBy b (d(fst x := snd x))"
    unfolding storeWrittenBy_def
  proof (intro allI impI)
    fix k v ttl
    assume h: "(d(fst x := snd x)) k = Some (v, ttl)"
    show "writtenBy b v"
    proof (cases "k = fst x")
      case True
      with h have "x = (k, Some (v, ttl))" by (cases x) auto
      then show ?thesis using Cons.prems(2) [of k v ttl] by simp
    next
      case False
      with h Cons.prems(1) show ?thesis by (auto simp: storeWrittenBy_def)
    qed
  qed
  have rest: "writtenBy b v" if "(k, Some (v, ttl)) \<in> set ws" for k v ttl
    using Cons.prems(2) [of k v ttl] that by simp
  from Cons.IH [OF st rest] show ?case by (simp only: foldl_Cons)
qed

lemma arrive_storeWrittenBy:
  assumes "othersWrittenBy b env" "storeWrittenBy b (db w)"
  shows "storeWrittenBy b (db (arrive env c w))"
  using assms foldl_storeWrittenBy [of b "db w" "others env (length (sent w))"]
  by (auto simp: arrive_def Let_def othersWrittenBy_def)

lemma tx_Close_storeWrittenBy:
  assumes "othersWrittenBy b env" "storeWrittenBy b (db w)"
  shows "storeWrittenBy b (db (tx_Close env w))"
  using arrive_storeWrittenBy [OF assms] by (simp add: tx_Close_def)

lemma tx_Get_storeWrittenBy:
  assumes "othersWrittenBy b env" "storeWrittenBy b (db w)" "tx_Get env key w = (reply, w1)"
  shows "storeWrittenBy b (db w1)" and "reply = Inr s \<Longrightarrow> writtenBy b s"
proof -
  have w1: "w1 = arrive env (GET key) w" by (rule tx_Get_fields(5) [OF assms(3)])
  show s: "storeWrittenBy b (db w1)" unfolding w1 by (rule arrive_storeWrittenBy [OF assms(1,2)])
  show "writtenBy b s" if "reply = Inr s"
  proof -
    from assms(3) that obtain ttl where "db (arrive env (GET key) w) key = Some (s, ttl)"
      by (auto simp: tx_Get_def Let_def split: option.splits)
    with s show ?thesis unfolding w1 storeWrittenBy_def by blast
  qed
qed

lemma tx_TxPipelined_Set_storeWrittenBy:
  assumes "othersWrittenBy b env" "storeWrittenBy b (db w)" "writtenBy b val"
    and "tx_TxPipelined_Set env key val ttl w = (r, w1)"
  shows "storeWrittenBy b (db w1)"
proof -
  have a: "storeWrittenBy b (db (arrive env (EXEC_SET key val ttl) w))"
    by (rule arrive_storeWrittenBy [OF assms(1,2)])
  then have "storeWrittenBy b ((db (arrive env (EXEC_SET key val ttl) w))(key \<mapsto> (val, ttl)))"
    using assms(3) by (auto simp: storeWrittenBy_def)
  with a assms(4) show ?thesis
    by (auto simp: tx_TxPipelined_Set_def Let_def split: option.splits if_splits)
qed

lemma attempt_within_bounds:
  assumes v: "validBucket b" and o: "othersWrittenBy b env" and s: "storeWrittenBy b (db w)"
    and a: "attempt env b ip w = (r, w')"
  shows "storeWrittenBy b (db w')"
    and "committed w' = committed w \<or> (\<exists>val ttl. committed w' = committed w @ [(storeKey ip, val, ttl)] \<and> writtenBy b val)"
proof -
  let ?k = "storeKey ip"
  have wa: "storeWrittenBy b (db ((arrive env (WATCH ?k) w)\<lparr>watched := [?k], touched := False\<rparr>))"
    using arrive_storeWrittenBy [OF o s] by simp
  from a have "storeWrittenBy b (db w') \<and>
      (committed w' = committed w \<or> (\<exists>val ttl. committed w' = committed w @ [(?k, val, ttl)] \<and> writtenBy b val))"
  proof (cases rule: attempt_outcome)
    case (watch_failed msg)
    with tx_Close_storeWrittenBy [OF o arrive_storeWrittenBy [OF o s]] show ?thesis by simp
  next
    case (refused reply w2 e w3)
    from decide_frame [OF refused(3)] obtain k where k: "w3 = w2\<lparr>nowReads := k\<rparr>" by blast
    have "storeWrittenBy b (db w3)" using tx_Get_storeWrittenBy(1) [OF o wa refused(2)] k by simp
    from tx_Close_storeWrittenBy [OF o this] tx_Get_fields(2) [OF refused(2)] k refused(5)
    show ?thesis by simp
  next
    case (written reply w2 tokens t w3 w4)
    from decide_frame [OF written(3)] obtain k where k: "w3 = w2\<lparr>nowReads := k\<rparr>" by blast
    have s3: "storeWrittenBy b (db w3)" using tx_Get_storeWrittenBy(1) [OF o wa written(2)] k by simp
    from decide_bounds [OF v tx_Get_storeWrittenBy(2) [OF o wa written(2)] written(3)]
    have tb: "0 < tokens" "tokens \<le> cap b" by simp_all
    have "inInt64 (tokens - 1)" using tb v by (simp add: validBucket_def inInt64_def minInt64_def)
    then have wr: "wrap64 (tokens - 1) = tokens - 1" by (rule wrap64_id)
    have val: "writtenBy b (encodeRecord (wrap64 (tokens - 1)) t)"
      unfolding wr using tb by (intro writtenBy_encode) simp_all
    have s4: "storeWrittenBy b (db w4)"
      by (rule tx_TxPipelined_Set_storeWrittenBy [OF o s3 val written(4)])
    have c3: "committed w3 = committed w" using tx_Get_fields(2) [OF written(2)] k by simp
    have "committed w4 = committed w \<or>
        committed w4 = committed w @ [(?k, encodeRecord (wrap64 (tokens - 1)) t, dur b)]"
      using tx_TxPipelined_Set_outcome(3,4) [OF written(4)] c3 by (cases "r = None") simp_all
    with tx_Close_storeWrittenBy [OF o s4] val written(5) show ?thesis by auto
  qed
  then show "storeWrittenBy b (db w')"
    and "committed w' = committed w \<or> (\<exists>val ttl. committed w' = committed w @ [(storeKey ip, val, ttl)] \<and> writtenBy b val)"
    by blast+
qed

lemma walkLoop_within_bounds:
  assumes v: "validBucket b" and o: "othersWrittenBy b env" and s: "storeWrittenBy b (db w)"
    and run: "walkLoop env b ip w = Some (r, w')"
  shows "storeWrittenBy b (db w')
       \<and> (\<exists>new. committed w' = committed w @ new \<and> (\<forall>c \<in> set new. writtenBy b (fst (snd c))))"
proof -
  let ?I = "\<lambda>u. storeWrittenBy b (db u) \<and> committed u = committed w"
  have step: "?I u1" if "?I u" "attempt env b ip u = (Some TxFailedErr, u1)" for u u1
    using that attempt_within_bounds(1) [OF v o _ that(2)] attempt_conflict(1) [OF that(2)] by simp
  from walkLoop_last [OF run, of ?I] s step obtain w0
    where w0: "storeWrittenBy b (db w0)" "committed w0 = committed w"
      and a: "attempt env b ip w0 = (r, w')"
    by blast
  from attempt_within_bounds [OF v o w0(1) a] w0(2) show ?thesis by auto
qed

lemma Walk_within_bounds:
  assumes v: "validBucket b" and o: "othersWrittenBy b env" and s: "storeWrittenBy b (db w)"
    and run: "Walk env b ctx w = Some (r, w')"
  shows "storeWrittenBy b (db w')
       \<and> (\<exists>new. committed w' = committed w @ new \<and> (\<forall>c \<in> set new. writtenBy b (fst (snd c))))"
proof (cases "core b = None")
  case True
  with run s show ?thesis by (simp add: Walk_def)
next
  case False
  with run have "walkLoop env b (ClientIP ctx) w = Some (r, w')" by (simp add: Walk_def)
  from walkLoop_within_bounds [OF v o s this] show ?thesis .
qed

lemma Walks_within_bounds:
  assumes v: "validBucket b" and o: "othersWrittenBy b env"
  shows "storeWrittenBy b (db w) \<Longrightarrow> Walks env b ctxs w = Some (rs, w') \<Longrightarrow>
      storeWrittenBy b (db w')
       \<and> (\<exists>new. committed w' = committed w @ new \<and> (\<forall>c \<in> set new. writtenBy b (fst (snd c))))"
proof (induction ctxs arbitrary: w rs)
  case Nil
  then show ?case by simp
next
  case (Cons c cs)
  from Cons.prems(2) obtain r w1 rs1
    where w1: "Walk env b c w = Some (r, w1)" and rest: "Walks env b cs w1 = Some (rs1, w')"
    by (auto split: option.splits)
  from Walk_within_bounds [OF v o Cons.prems(1) w1] obtain n1
    where s1: "storeWrittenBy b (db w1)" and c1: "committed w1 = committed w @ n1"
      "\<forall>c \<in> set n1. writtenBy b (fst (snd c))" by blast
  from Cons.IH [OF s1 rest] obtain n2
    where s2: "storeWrittenBy b (db w')" and c2: "committed w' = committed w1 @ n2"
      "\<forall>c \<in> set n2. writtenBy b (fst (snd c))" by blast
  have "committed w' = committed w @ (n1 @ n2)" "\<forall>c \<in> set (n1 @ n2). writtenBy b (fst (snd c))"
    using c1 c2 by auto
  with s2 show ?case by blast
qed


subsection \<open>The constructor\<close>

lemma NewRedisBucketWithClient_valid:
  assumes "inInt64 (Capability cfg)" "inInt64 (Duration cfg)" "inInt64 (NewTokenAppendTime cfg)"
  shows "validBucket (NewRedisBucketWithClient cfg c)"
  using assms
  by (simp add: validBucket_def NewRedisBucketWithClient_def MaxTokensCapDefault_def
      NewTokenAppendTimeDefault_def DurationDefault_def inInt64_def minInt64_def maxInt64_def)

subsection \<open>A panic of the division\<close>

lemma tx_Get_not_panic:
  assumes "tx_Get env key w = (reply, w1)"
  shows "reply \<noteq> Inl PanicDivideByZero"
  using assms by (auto simp: tx_Get_def Let_def split: option.splits)

lemma decodeRecord_not_panic: "decodeRecord r \<noteq> Inl PanicDivideByZero"
  by (auto simp: decodeRecord_def Let_def split: sum.splits option.splits)

lemma refill_not_panic:
  assumes "refill env b tokens t w = (Inl e, w1)"
  shows "tokenAppendTime b = 0"
  using assms by (auto simp: refill_def Let_def Now_def split: if_splits prod.splits)

lemma decide_not_panic:
  assumes "decide env b reply w = (Inl PanicDivideByZero, w1)" "reply \<noteq> Inl PanicDivideByZero"
  shows "tokenAppendTime b = 0"
proof (cases reply)
  case (Inl err)
  with assms show ?thesis by (auto simp: decide_def Now_def split: if_splits)
next
  case (Inr r)
  show ?thesis
  proof (cases "decodeRecord r")
    case (Inl e')
    with Inr assms decodeRecord_not_panic [of r] show ?thesis by (auto simp: decide_def)
  next
    case dec: (Inr p)
    obtain tokens t where p: "p = (tokens, t)" by (cases p) auto
    obtain y w2 where rf: "refill env b tokens t w = (y, w2)" by (cases "refill env b tokens t w") auto
    from assms Inr dec p rf have "y = Inl PanicDivideByZero"
      by (auto simp: decide_def split: sum.splits if_splits)
    with rf refill_not_panic show ?thesis by blast
  qed
qed

lemma tx_TxPipelined_Set_not_panic:
  assumes "tx_TxPipelined_Set env key val ttl w = (r, w1)"
  shows "r \<noteq> Some PanicDivideByZero"
  using assms by (auto simp: tx_TxPipelined_Set_def Let_def split: option.splits if_splits)

lemma attempt_not_panic:
  assumes "attempt env b ip w = (Some PanicDivideByZero, w')"
  shows "tokenAppendTime b = 0"
  using assms
proof (cases rule: attempt_outcome)
  case (watch_failed msg)
  then show ?thesis by simp
next
  case (refused reply w2 e w3)
  with decide_not_panic [of env b reply w2 w3] tx_Get_not_panic [OF refused(2)] show ?thesis by simp
next
  case (written reply w2 tokens t w3 w4)
  with tx_TxPipelined_Set_not_panic [OF written(4)] show ?thesis by simp
qed

lemma Walk_not_panic:
  assumes "Walk env b ctx w = Some (Some PanicDivideByZero, w')"
  shows "tokenAppendTime b = 0"
proof (cases "core b = None")
  case True
  with assms show ?thesis by (simp add: Walk_def)
next
  case False
  with assms have run: "walkLoop env b (ClientIP ctx) w = Some (Some PanicDivideByZero, w')"
    by (simp add: Walk_def)
  from walkLoop_last [OF run, of "\<lambda>u. True"] obtain w0
    where "attempt env b (ClientIP ctx) w0 = (Some PanicDivideByZero, w')" by blast
  then show ?thesis by (rule attempt_not_panic)
qed

subsection \<open>An attempt that nobody disturbs\<close>

lemma refill_cong:
  assumes "nowReads u = nowReads w"
  shows "fst (refill env b tokens t u) = fst (refill env b tokens t w)"
    and "nowReads (snd (refill env b tokens t u)) = nowReads (snd (refill env b tokens t w))"
  using assms by (simp_all add: refill_def Now_def Let_def)

lemma decide_cong:
  assumes "nowReads u = nowReads w"
  shows "fst (decide env b reply u) = fst (decide env b reply w)"
    and "nowReads (snd (decide env b reply u)) = nowReads (snd (decide env b reply w))"
proof -
  have "fst (decide env b reply u) = fst (decide env b reply w)
      \<and> nowReads (snd (decide env b reply u)) = nowReads (snd (decide env b reply w))"
  proof (cases reply)
    case (Inl err)
    with assms show ?thesis by (simp add: decide_def Now_def)
  next
    case (Inr r)
    show ?thesis
    proof (cases "decodeRecord r")
      case (Inl e)
      with Inr assms show ?thesis by (simp add: decide_def)
    next
      case dec: (Inr p)
      obtain tokens t where p: "p = (tokens, t)" by (cases p) auto
      obtain y1 u1 where r1: "refill env b tokens t u = (y1, u1)" by (cases "refill env b tokens t u") auto
      obtain y2 w2 where r2: "refill env b tokens t w = (y2, w2)" by (cases "refill env b tokens t w") auto
      from refill_cong [OF assms, of env b tokens t] r1 r2 have "y1 = y2" "nowReads u1 = nowReads w2"
        by simp_all
      with Inr dec p r1 r2 show ?thesis
        by (auto simp: decide_def split: sum.splits)
    qed
  qed
  then show "fst (decide env b reply u) = fst (decide env b reply w)"
    and "nowReads (snd (decide env b reply u)) = nowReads (snd (decide env b reply w))" by simp_all
qed

lemma attempt_quiet:
  assumes q: "quiet env" and f: "faultless env"
    and d: "decide env b (case db w (storeKey ip) of None \<Rightarrow> Inl RedisNil | Some v \<Rightarrow> Inr (fst v)) u = (x, u')"
    and n: "nowReads u = nowReads w"
  shows "fst (attempt env b ip w) = (case x of Inl e \<Rightarrow> Some e | Inr p \<Rightarrow> None)"
    and "nowReads (snd (attempt env b ip w)) = nowReads u'"
    and "db (snd (attempt env b ip w))
           = (case x of
                Inl e \<Rightarrow> db w
              | Inr p \<Rightarrow> (db w)(storeKey ip \<mapsto> (encodeRecord (wrap64 (fst p - 1)) (snd p), dur b)))"
    and "committed (snd (attempt env b ip w))
           = committed w
             @ (case x of
                  Inl e \<Rightarrow> []
                | Inr p \<Rightarrow> [(storeKey ip, encodeRecord (wrap64 (fst p - 1)) (snd p), dur b)])"
proof -
  let ?k = "storeKey ip"
  let ?reply = "case db w ?k of None \<Rightarrow> Inl RedisNil | Some v \<Rightarrow> Inr (fst v)"
  let ?wa = "(arrive env (WATCH ?k) w)\<lparr>watched := [?k], touched := False\<rparr>"
  let ?w2 = "arrive env (GET ?k) ?wa"
  have fl: "faults env m = None" for m using f by (simp add: faultless_def)
  have g: "tx_Get env ?k ?wa = (?reply, ?w2)"
    using q by (simp add: tx_Get_def Let_def fl split: option.splits)
  obtain x' w3 where d': "decide env b ?reply ?w2 = (x', w3)" by (cases "decide env b ?reply ?w2") auto
  have "nowReads u = nowReads ?w2" using n by simp
  from decide_cong [OF this, of env b ?reply] d d' have x: "x' = x" and k: "nowReads w3 = nowReads u'"
    by simp_all
  from decide_frame [OF d'] obtain j where j: "w3 = ?w2\<lparr>nowReads := j\<rparr>" by blast
  have w: "tx_Watch env ?k w = (None, ?wa)"
    by (simp add: tx_Watch_def Let_def fl)
  have body: "attempt env b ip w = (case txBody env b ip ?wa of (r, w2) \<Rightarrow> (r, tx_Close env w2))"
    by (simp add: attempt_def Watch_def w)
  have "fst (attempt env b ip w) = (case x of Inl e \<Rightarrow> Some e | Inr p \<Rightarrow> None)
      \<and> nowReads (snd (attempt env b ip w)) = nowReads u'
      \<and> db (snd (attempt env b ip w))
           = (case x of
                Inl e \<Rightarrow> db w
              | Inr p \<Rightarrow> (db w)(storeKey ip \<mapsto> (encodeRecord (wrap64 (fst p - 1)) (snd p), dur b)))
      \<and> committed (snd (attempt env b ip w))
           = committed w
             @ (case x of
                  Inl e \<Rightarrow> []
                | Inr p \<Rightarrow> [(storeKey ip, encodeRecord (wrap64 (fst p - 1)) (snd p), dur b)])"
  proof (cases x)
    case (Inl e)
    with body g d' x have "attempt env b ip w = (Some e, tx_Close env w3)"
      by (simp add: txBody_def)
    with Inl j k q show ?thesis by simp
  next
    case (Inr p)
    obtain tokens t where p: "p = (tokens, t)" by (cases p) auto
    let ?v = "encodeRecord (wrap64 (tokens - 1)) t"
    have nt: "\<not> touched (arrive env (EXEC_SET ?k ?v (dur b)) w3)"
      using q j by simp
    from body g d' x Inr p
    have a: "attempt env b ip w
        = (fst (tx_TxPipelined_Set env ?k ?v (dur b) w3), tx_Close env (snd (tx_TxPipelined_Set env ?k ?v (dur b) w3)))"
      by (simp add: txBody_def split: prod.splits)
    from tx_TxPipelined_Set_commit [OF fl nt] tx_TxPipelined_Set_outcome(2) [of env ?k ?v "dur b" w3]
    have "fst (tx_TxPipelined_Set env ?k ?v (dur b) w3) = None"
      "committed (snd (tx_TxPipelined_Set env ?k ?v (dur b) w3)) = committed w3 @ [(?k, ?v, dur b)]"
      "db (snd (tx_TxPipelined_Set env ?k ?v (dur b) w3)) = (db (arrive env (EXEC_SET ?k ?v (dur b)) w3))(?k \<mapsto> (?v, dur b))"
      "nowReads (snd (tx_TxPipelined_Set env ?k ?v (dur b) w3)) = nowReads w3"
      by (simp_all add: prod_eq_iff)
    with a Inr p j k q show ?thesis by simp
  qed
  then show "fst (attempt env b ip w) = (case x of Inl e \<Rightarrow> Some e | Inr p \<Rightarrow> None)"
    and "nowReads (snd (attempt env b ip w)) = nowReads u'"
    and "db (snd (attempt env b ip w))
           = (case x of
                Inl e \<Rightarrow> db w
              | Inr p \<Rightarrow> (db w)(storeKey ip \<mapsto> (encodeRecord (wrap64 (fst p - 1)) (snd p), dur b)))"
    and "committed (snd (attempt env b ip w))
           = committed w
             @ (case x of
                  Inl e \<Rightarrow> []
                | Inr p \<Rightarrow> [(storeKey ip, encodeRecord (wrap64 (fst p - 1)) (snd p), dur b)])"
    by simp_all
qed

lemma Walk_quiet:
  assumes q: "quiet env" and f: "faultless env" and c: "core b \<noteq> None"
    and d: "decide env b (case db w (storeKey (ClientIP ctx)) of None \<Rightarrow> Inl RedisNil | Some v \<Rightarrow> Inr (fst v)) u = (x, u')"
    and n: "nowReads u = nowReads w"
  shows "\<exists>w'. Walk env b ctx w = Some ((case x of Inl e \<Rightarrow> Some e | Inr p \<Rightarrow> None), w')
      \<and> nowReads w' = nowReads u'
      \<and> db w' = (case x of
                   Inl e \<Rightarrow> db w
                 | Inr p \<Rightarrow> (db w)(storeKey (ClientIP ctx) \<mapsto> (encodeRecord (wrap64 (fst p - 1)) (snd p), dur b)))
      \<and> committed w'
           = committed w
             @ (case x of
                  Inl e \<Rightarrow> []
                | Inr p \<Rightarrow> [(storeKey (ClientIP ctx), encodeRecord (wrap64 (fst p - 1)) (snd p), dur b)])"
proof -
  let ?ip = "ClientIP ctx"
  let ?r = "case x of Inl e \<Rightarrow> Some e | Inr p \<Rightarrow> None"
  from attempt_quiet(1) [OF q f d n]
  have a: "attempt env b ?ip w = (?r, snd (attempt env b ?ip w))"
    by (simp add: prod_eq_iff)
  from attempt_quiet_no_conflict [OF q a] have "?r \<noteq> Some TxFailedErr" .
  from walkLoop_return [OF a this]
  have "walkLoop env b ?ip w = Some (?r, snd (attempt env b ?ip w))" .
  moreover have "Walk env b ctx w = walkLoop env b ?ip w"
    using c unfolding Walk_def by (cases "core b") simp_all
  ultimately have "Walk env b ctx w = Some (?r, snd (attempt env b ?ip w))"
    by simp
  with attempt_quiet(2,3,4) [OF q f d n] show ?thesis by blast
qed








lemma Walk_quiet_step:
  assumes q: "quiet env" and f: "faultless env" and c: "core b \<noteq> None"
    and st: "db w (storeKey (ClientIP ctx)) = stored" and k: "nowReads w = k"
    and x: "fst (decide env b (case stored of None \<Rightarrow> Inl RedisNil | Some v \<Rightarrow> Inr (fst v))
                  (emptyWorld\<lparr>nowReads := k\<rparr>)) = x"
    and k': "nowReads (snd (decide env b (case stored of None \<Rightarrow> Inl RedisNil | Some v \<Rightarrow> Inr (fst v))
                  (emptyWorld\<lparr>nowReads := k\<rparr>))) = k'"
  shows "\<exists>w'. Walk env b ctx w = Some ((case x of Inl e \<Rightarrow> Some e | Inr p \<Rightarrow> None), w')
      \<and> nowReads w' = k'
      \<and> db w' (storeKey (ClientIP ctx))
          = (case x of
               Inl e \<Rightarrow> stored
             | Inr p \<Rightarrow> Some (encodeRecord (wrap64 (fst p - 1)) (snd p), dur b))
      \<and> committed w'
           = committed w
             @ (case x of
                  Inl e \<Rightarrow> []
                | Inr p \<Rightarrow> [(storeKey (ClientIP ctx), encodeRecord (wrap64 (fst p - 1)) (snd p), dur b)])"
proof -
  let ?u = "emptyWorld\<lparr>nowReads := k\<rparr>"
  let ?reply = "case db w (storeKey (ClientIP ctx)) of None \<Rightarrow> Inl RedisNil | Some v \<Rightarrow> Inr (fst v)"
  have d: "decide env b ?reply ?u = (x, snd (decide env b ?reply ?u))"
    using x st by (simp add: prod_eq_iff)
  have n: "nowReads ?u = nowReads w" using k by simp
  from Walk_quiet [OF q f c d n] obtain w'
    where w': "Walk env b ctx w = Some ((case x of Inl e \<Rightarrow> Some e | Inr p \<Rightarrow> None), w')"
      "nowReads w' = nowReads (snd (decide env b ?reply ?u))"
      "db w' = (case x of
                   Inl e \<Rightarrow> db w
                 | Inr p \<Rightarrow> (db w)(storeKey (ClientIP ctx) \<mapsto> (encodeRecord (wrap64 (fst p - 1)) (snd p), dur b)))"
      "committed w'
           = committed w
             @ (case x of
                  Inl e \<Rightarrow> []
                | Inr p \<Rightarrow> [(storeKey (ClientIP ctx), encodeRecord (wrap64 (fst p - 1)) (snd p), dur b)])"
    by blast
  have "db w' (storeKey (ClientIP ctx))
          = (case x of
               Inl e \<Rightarrow> stored
             | Inr p \<Rightarrow> Some (encodeRecord (wrap64 (fst p - 1)) (snd p), dur b))"
    using w'(3) st by (cases x) simp_all
  with w'(1,2,4) k' st show ?thesis by auto
qed

lemma Walks_Cons:
  "Walk env b c w = Some (r, w1) \<Longrightarrow> Walks env b cs w1 = Some (rs, w2)
     \<Longrightarrow> Walks env b (c # cs) w = Some (r # rs, w2)"
  by simp

subsection \<open>The text of an integer and of a date\<close>

lemma digitsValue_snoc:
  "digitsValue (s @ [c]) = digitsValue s * 10 + (case digitVal c of None \<Rightarrow> 0 | Some d \<Rightarrow> d)"
  by (simp add: digitsValue_def)

lemma digitsValue_nonneg: "0 \<le> digitsValue s"
proof (induction s rule: rev_induct)
  case Nil
  then show ?case by (simp add: digitsValue_def)
next
  case (snoc c s)
  then show ?case
    by (cases "digitVal c") (auto simp: digitsValue_snoc dest: digitVal_range)
qed

lemma foldl_parseStep_digits:
  "list_all (\<lambda>x. digitVal x \<noteq> None) s \<Longrightarrow>
   foldl parseStep (Inr 0) s
     = (if digitsValue s \<le> 18446744073709551615 then Inr (digitsValue s) else Inl ErrRange)"
proof (induction s rule: rev_induct)
  case Nil
  then show ?case by (simp add: digitsValue_def)
next
  case (snoc c s)
  then obtain d where d: "digitVal c = Some d" and ds: "list_all (\<lambda>x. digitVal x \<noteq> None) s"
    by auto
  from digitVal_range [OF d] have r: "0 \<le> d" "d \<le> 9" by simp_all
  have v: "digitsValue (s @ [c]) = digitsValue s * 10 + d"
    using d by (simp add: digitsValue_snoc)
  have st: "foldl parseStep (Inr 0) (s @ [c]) = parseStep (foldl parseStep (Inr 0) s) c"
    by simp
  show ?case
  proof (cases "digitsValue s \<le> 18446744073709551615")
    case True
    with snoc.IH [OF ds] have "foldl parseStep (Inr 0) s = Inr (digitsValue s)" by simp
    then have "foldl parseStep (Inr 0) (s @ [c]) = parseStep (Inr (digitsValue s)) c"
      unfolding st by simp
    also have "\<dots> = (if digitsValue s * 10 + d \<le> 18446744073709551615
                      then Inr (digitsValue s * 10 + d) else Inl ErrRange)"
      using d r by (simp add: parseStep_def)
    finally show ?thesis unfolding v .
  next
    case False
    with snoc.IH [OF ds] have "foldl parseStep (Inr 0) s = Inl ErrRange" by simp
    then have "foldl parseStep (Inr 0) (s @ [c]) = Inl ErrRange"
      unfolding st by (simp add: parseStep_def)
    moreover have "\<not> digitsValue s * 10 + d \<le> 18446744073709551615"
      using False r by simp
    ultimately show ?thesis unfolding v by simp
  qed
qed

lemma foldl_parseStep_not_digits:
  "\<not> list_all (\<lambda>x. digitVal x \<noteq> None) s \<Longrightarrow> \<exists>e. foldl parseStep acc s = Inl e"
proof (induction s arbitrary: acc)
  case Nil
  then show ?case by simp
next
  case (Cons c s)
  show ?case
  proof (cases "digitVal c")
    case None
    then have "\<exists>e. parseStep acc c = Inl e"
      by (cases acc) (simp_all add: parseStep_def)
    then show ?thesis by (auto simp: foldl_parseStep_error)
  next
    case (Some d)
    with Cons.prems have "\<not> list_all (\<lambda>x. digitVal x \<noteq> None) s" by simp
    from Cons.IH [OF this] show ?thesis by simp
  qed
qed

lemma ParseUint_digits:
  "s \<noteq> [] \<Longrightarrow> list_all (\<lambda>x. digitVal x \<noteq> None) s \<Longrightarrow>
   ParseUint s = (if digitsValue s \<le> 18446744073709551615 then Inr (digitsValue s) else Inl ErrRange)"
  by (simp add: ParseUint_def foldl_parseStep_digits)

lemma ParseUint_not_digits:
  "s = [] \<or> \<not> list_all (\<lambda>x. digitVal x \<noteq> None) s \<Longrightarrow> \<exists>e. ParseUint s = Inl e"
  using foldl_parseStep_not_digits [of s "Inr 0"] by (auto simp: ParseUint_def)

lemma digitVal_sign [simp]: "digitVal (CHR ''-'') = None" "digitVal (CHR ''+'') = None"
  by (simp_all add: digitVal_def)

lemma Atoi_integer:
  "Atoi s = (if \<not> integerText s then Inl (case Atoi s of Inl e \<Rightarrow> e | Inr n \<Rightarrow> ErrSyntax)
             else if inInt64 (integerValue s) then Inr (integerValue s) else Inl ErrRange)"
proof (cases s)
  case Nil
  then show ?thesis by (simp add: Atoi_def integerText_def)
next
  case (Cons c r)
  define body where "body = (if c = CHR ''-'' \<or> c = CHR ''+'' then r else s)"
  have it: "integerText s = (body \<noteq> [] \<and> list_all (\<lambda>x. digitVal x \<noteq> None) body)"
    using Cons by (simp add: integerText_def body_def)
  have iv: "integerValue s = (if c = CHR ''-'' then - digitsValue body else digitsValue body)"
    using Cons by (auto simp: integerValue_def body_def)
  have at: "Atoi s = (case ParseUint body of
                Inl e \<Rightarrow> Inl e
              | Inr un \<Rightarrow>
                  if c \<noteq> CHR ''-'' \<and> un \<ge> 9223372036854775808 then Inl ErrRange
                  else if c = CHR ''-'' \<and> un > 9223372036854775808 then Inl ErrRange
                  else Inr (if c = CHR ''-'' then - un else un))"
    using Cons by (simp add: Atoi_def body_def Let_def)
  show ?thesis
  proof (cases "integerText s")
    case False
    with it ParseUint_not_digits [of body] obtain e where "ParseUint body = Inl e" by blast
    with at False show ?thesis by simp
  next
    case True
    with it have b: "body \<noteq> []" "list_all (\<lambda>x. digitVal x \<noteq> None) body" by simp_all
    from digitsValue_nonneg [of body] ParseUint_digits [OF b] at iv True show ?thesis
      by (auto simp: inInt64_def minInt64_def maxInt64_def)
  qed
qed

lemma Atoi_valid: "integerText s \<Longrightarrow> inInt64 (integerValue s) \<Longrightarrow> Atoi s = Inr (integerValue s)"
  by (subst Atoi_integer) simp

lemma Atoi_out_of_range: "integerText s \<Longrightarrow> \<not> inInt64 (integerValue s) \<Longrightarrow> Atoi s = Inl ErrRange"
  by (subst Atoi_integer) simp

lemma Atoi_no_integer: "\<not> integerText s \<Longrightarrow> \<exists>e. Atoi s = Inl e"
  by (subst Atoi_integer) simp

lemma getYear_Some:
  assumes "getYear s = Some (y, s1)"
  shows "\<exists>a. s = a @ s1 \<and> length a = 4 \<and> list_all (\<lambda>x. digitVal x \<noteq> None) a"
proof -
  from assms have "4 \<le> length s" "list_all (\<lambda>x. digitVal x \<noteq> None) (take 4 s)" "s1 = drop 4 s"
    by (auto simp: getYear_def list_all_iff split: if_splits)
  then have "s = take 4 s @ s1 \<and> length (take 4 s) = 4 \<and> list_all (\<lambda>x. digitVal x \<noteq> None) (take 4 s)"
    by simp
  then show ?thesis by blast
qed

lemma skipChar_Some: "skipChar c s = Some r \<Longrightarrow> s = c # r"
  by (auto simp: skipChar_def split: list.splits if_splits)

lemma getnum_fixed_Some:
  assumes "getnum s True = Some (n, r)"
  shows "\<exists>c0 c1. s = c0 # c1 # r \<and> digitVal c0 \<noteq> None \<and> digitVal c1 \<noteq> None"
  using assms by (auto simp: getnum_def split: list.splits option.splits)

lemma ParseRFC3339_date:
  assumes "ParseRFC3339 s = Some t"
  shows "dateText s"
proof -
  obtain y s1 where 1: "getYear s = Some (y, s1)"
  proof (cases "getYear s")
    case None
    with assms show ?thesis by (simp add: ParseRFC3339_def)
  next
    case (Some p)
    with that show ?thesis by (cases p) auto
  qed
  obtain s2 where 2: "skipChar (CHR ''-'') s1 = Some s2"
  proof (cases "skipChar (CHR ''-'') s1")
    case None
    with assms 1 show ?thesis by (simp add: ParseRFC3339_def)
  next
    case (Some p)
    with that show ?thesis by auto
  qed
  obtain m s3 where 3: "getnum s2 True = Some (m, s3)"
  proof (cases "getnum s2 True")
    case None
    with assms 1 2 show ?thesis by (simp add: ParseRFC3339_def)
  next
    case (Some p)
    with that show ?thesis by (cases p) auto
  qed
  obtain s4 where 4: "skipChar (CHR ''-'') s3 = Some s4"
  proof (cases "skipChar (CHR ''-'') s3")
    case None
    with assms 1 2 3 show ?thesis by (simp add: ParseRFC3339_def)
  next
    case (Some p)
    with that show ?thesis by auto
  qed
  obtain d s5 where 5: "getnum s4 True = Some (d, s5)"
  proof (cases "getnum s4 True")
    case None
    with assms 1 2 3 4 show ?thesis by (simp add: ParseRFC3339_def)
  next
    case (Some p)
    with that show ?thesis by (cases p) auto
  qed
  obtain s6 where 6: "skipChar (CHR ''T'') s5 = Some s6"
  proof (cases "skipChar (CHR ''T'') s5")
    case None
    with assms 1 2 3 4 5 show ?thesis by (simp add: ParseRFC3339_def)
  next
    case (Some p)
    with that show ?thesis by auto
  qed
  from getYear_Some [OF 1] obtain a where a: "s = a @ s1" "length a = 4" "list_all (\<lambda>x. digitVal x \<noteq> None) a"
    by blast
  from getnum_fixed_Some [OF 3] obtain m0 m1 where m: "s2 = m0 # m1 # s3" "digitVal m0 \<noteq> None" "digitVal m1 \<noteq> None"
    by blast
  from getnum_fixed_Some [OF 5] obtain d0 d1 where d: "s4 = d0 # d1 # s5" "digitVal d0 \<noteq> None" "digitVal d1 \<noteq> None"
    by blast
  have s: "s = a @ CHR ''-'' # m0 # m1 # CHR ''-'' # d0 # d1 # CHR ''T'' # s6"
    using a(1) skipChar_Some [OF 2] skipChar_Some [OF 4] skipChar_Some [OF 6] m(1) d(1) by simp
  have "list_all (\<lambda>x. digitVal x \<noteq> None) (take 4 s)" "s ! 4 = CHR ''-''"
    "take 2 (drop 5 s) = [m0, m1]" "s ! 7 = CHR ''-''" "take 2 (drop 8 s) = [d0, d1]"
    "s ! 10 = CHR ''T''" "11 \<le> length s"
    using a(2,3) by (simp_all add: s nth_append)
  with m(2,3) d(2,3) show ?thesis
    unfolding dateText_def by simp
qed

section \<open>The claims\<close>

subsection \<open>Evaluations at the concrete inputs\<close>

lemma attempt_racing:
  "fst (attempt racingEnv bucket3 ''10.0.0.1'' emptyWorld) = Some TxFailedErr"
  by code_simp

lemma attempt_failing:
  "fst (attempt failingEnv bucket3 ''10.0.0.1'' emptyWorld) = Some (StoreError ''i/o timeout'')"
  by code_simp

lemma Walk_bad_integer: "map_option fst (Walk quietEnv bucket3 request1 (storing ''x|2023-11-14T22:13:20Z''))
    = Some (Some (NumError ''x'' ErrSyntax))"
  by code_simp

lemma Walk_bad_timestamp: "map_option fst (Walk quietEnv bucket3 request1 (storing ''3|yesterday''))
    = Some (Some (ParseError ''yesterday''))"
  by code_simp

lemma Get_bad_timestamp: "fst (tx_Get quietEnv (storeKey (ClientIP request1))
           ((arrive quietEnv (WATCH (storeKey (ClientIP request1))) (storing ''3|yesterday''))
              \<lparr>watched := [storeKey (ClientIP request1)], touched := False\<rparr>)) = Inr ''3|yesterday''"
  by code_simp

lemma decode_least_int: "decodeRecord ''-9223372036854775808|2023-11-14T22:13:00Z''
    = Inr (- 9223372036854775808, \<lparr>unixNano = 1699999980000000000, zoneOffset = 0\<rparr>)"
  by code_simp

lemma refill_least_int: "fst (refill quietEnv bucket3 (- 9223372036854775808) \<lparr>unixNano = 1699999980000000000, zoneOffset = 0\<rparr> emptyWorld)
    = Inr (3, \<lparr>unixNano = 1700000001123456789, zoneOffset = 0\<rparr>)"
  by code_simp

lemma Walk_racing:
  "map_option (\<lambda>x. (fst x, sent (snd x), committed (snd x))) (Walk racingEnv bucket3 request1 emptyWorld)
     = Some (Some ErrNoTokensAwailable,
             [WATCH ''ginratelimiter:10.0.0.1'', GET ''ginratelimiter:10.0.0.1'',
              EXEC_SET ''ginratelimiter:10.0.0.1'' ''2|2023-11-14T22:13:20Z'' 1800000000000, UNWATCH,
              WATCH ''ginratelimiter:10.0.0.1'', GET ''ginratelimiter:10.0.0.1'', UNWATCH],
             [])"
  by code_simp

lemma Walk_exhausted:
  "map_option fst (Walk quietEnv bucket3 request1 (storing ''0|2023-11-14T22:13:20Z''))
     = Some (Some ErrNoTokensAwailable)"
  by code_simp

lemma validBucket_bucket3: "validBucket bucket3"
  by (simp add: validBucket_def bucket3_def NewRedisBucketWithClient_def MaxTokensCapDefault_def
      NewTokenAppendTimeDefault_def DurationDefault_def inInt64_def minInt64_def maxInt64_def)

lemma Walks_stored:
  "map_option fst (Walks quietEnv bucket3 [request1] (storing ''2|2023-11-14T22:13:20Z'')) = Some [None]"
  by code_simp

lemma encode_stored:
  "encodeRecord 2 \<lparr>unixNano = 1700000000000000000, zoneOffset = 0\<rparr> = ''2|2023-11-14T22:13:20Z''"
  by code_simp

lemma refill_before_last:
  "fst (refill quietEnv bucket3 0 \<lparr>unixNano = 1700000010123456789, zoneOffset = 0\<rparr> emptyWorld)
     = Inr (0, \<lparr>unixNano = 1700000010123456789, zoneOffset = 0\<rparr>)"
  by code_simp

lemma decode_old_time:
  "decodeRecord ''0|1700-01-01T00:00:00Z'' = Inr (0, \<lparr>unixNano = - 8520336000000000000, zoneOffset = 0\<rparr>)"
  by code_simp

lemma refill_saturated:
  "fst (refill quietEnv (bucket3\<lparr>cap := 2000000000\<rparr>) 0
          \<lparr>unixNano = - 8520336000000000000, zoneOffset = 0\<rparr> emptyWorld)
     = Inr (922337203, \<lparr>unixNano = 703036030000000000, zoneOffset = 0\<rparr>)"
  by code_simp




lemma burst_first:
  "fst (decide burstEnv bucket3 (Inl RedisNil) (emptyWorld\<lparr>nowReads := 0\<rparr>))
     = Inr (3, \<lparr>unixNano = 1700000000900000000, zoneOffset = 0\<rparr>)
   \<and> nowReads (snd (decide burstEnv bucket3 (Inl RedisNil) (emptyWorld\<lparr>nowReads := 0\<rparr>))) = 1
   \<and> encodeRecord (wrap64 (3 - 1)) \<lparr>unixNano = 1700000000900000000, zoneOffset = 0\<rparr>
     = ''2|2023-11-14T22:13:20Z''"
  by code_simp

lemma burst_second:
  "fst (decide burstEnv bucket3 (Inr ''2|2023-11-14T22:13:20Z'') (emptyWorld\<lparr>nowReads := 1\<rparr>))
     = Inr (2, \<lparr>unixNano = 1700000000000000000, zoneOffset = 0\<rparr>)
   \<and> nowReads (snd (decide burstEnv bucket3 (Inr ''2|2023-11-14T22:13:20Z'') (emptyWorld\<lparr>nowReads := 1\<rparr>))) = 2
   \<and> encodeRecord (wrap64 (2 - 1)) \<lparr>unixNano = 1700000000000000000, zoneOffset = 0\<rparr>
     = ''1|2023-11-14T22:13:20Z''"
  by code_simp

lemma burst_third:
  "fst (decide burstEnv bucket3 (Inr ''1|2023-11-14T22:13:20Z'') (emptyWorld\<lparr>nowReads := 2\<rparr>))
     = Inr (1, \<lparr>unixNano = 1700000000000000000, zoneOffset = 0\<rparr>)
   \<and> nowReads (snd (decide burstEnv bucket3 (Inr ''1|2023-11-14T22:13:20Z'') (emptyWorld\<lparr>nowReads := 2\<rparr>))) = 3
   \<and> encodeRecord (wrap64 (1 - 1)) \<lparr>unixNano = 1700000000000000000, zoneOffset = 0\<rparr>
     = ''0|2023-11-14T22:13:20Z''"
  by code_simp

lemma burst_fourth:
  "fst (decide burstEnv bucket3 (Inr ''0|2023-11-14T22:13:20Z'') (emptyWorld\<lparr>nowReads := 3\<rparr>))
     = Inl ErrNoTokensAwailable
   \<and> nowReads (snd (decide burstEnv bucket3 (Inr ''0|2023-11-14T22:13:20Z'') (emptyWorld\<lparr>nowReads := 3\<rparr>))) = 4"
  by code_simp

lemma burst_fifth:
  "fst (decide burstEnv bucket3 (Inr ''0|2023-11-14T22:13:20Z'') (emptyWorld\<lparr>nowReads := 4\<rparr>))
     = Inr (1, \<lparr>unixNano = 1700000010000000000, zoneOffset = 0\<rparr>)
   \<and> nowReads (snd (decide burstEnv bucket3 (Inr ''0|2023-11-14T22:13:20Z'') (emptyWorld\<lparr>nowReads := 4\<rparr>))) = 5
   \<and> encodeRecord (wrap64 (1 - 1)) \<lparr>unixNano = 1700000010000000000, zoneOffset = 0\<rparr>
     = ''0|2023-11-14T22:13:30Z''"
  by code_simp

lemma decode_lenient:
  "decodeRecord ''+3|2023-11-14T2:13:20,5+24:60''
     = Inr (3, \<lparr>unixNano = 1699838000500000000, zoneOffset = 90000\<rparr>)"
  by code_simp

lemma Walk_lenient:
  "map_option (\<lambda>x. (fst x, committed (snd x)))
     (Walk quietEnv bucket3 request1 (storing ''+3|2023-11-14T2:13:20,5+24:60''))
     = Some (None, [(''ginratelimiter:10.0.0.1'', ''2|2023-11-14T02:13:20+25:00'', 1800000000000)])"
  by code_simp

lemma rapid_first:
  "fst (decide rapidEnv bucket100ms (Inl RedisNil) (emptyWorld\<lparr>nowReads := 0\<rparr>))
     = Inr (3, \<lparr>unixNano = 1700000000900000000, zoneOffset = 0\<rparr>)
   \<and> nowReads (snd (decide rapidEnv bucket100ms (Inl RedisNil) (emptyWorld\<lparr>nowReads := 0\<rparr>))) = 1
   \<and> encodeRecord (wrap64 (3 - 1)) \<lparr>unixNano = 1700000000900000000, zoneOffset = 0\<rparr>
     = ''2|2023-11-14T22:13:20Z''"
  by code_simp

lemma rapid_second:
  "fst (decide rapidEnv bucket100ms (Inr ''2|2023-11-14T22:13:20Z'') (emptyWorld\<lparr>nowReads := 1\<rparr>))
     = Inr (3, \<lparr>unixNano = 1700000000902000000, zoneOffset = 0\<rparr>)
   \<and> nowReads (snd (decide rapidEnv bucket100ms (Inr ''2|2023-11-14T22:13:20Z'') (emptyWorld\<lparr>nowReads := 1\<rparr>))) = 3
   \<and> encodeRecord (wrap64 (3 - 1)) \<lparr>unixNano = 1700000000902000000, zoneOffset = 0\<rparr>
     = ''2|2023-11-14T22:13:20Z''"
  by code_simp

lemma rapid_third:
  "fst (decide rapidEnv bucket100ms (Inr ''2|2023-11-14T22:13:20Z'') (emptyWorld\<lparr>nowReads := 3\<rparr>))
     = Inr (3, \<lparr>unixNano = 1700000000904000000, zoneOffset = 0\<rparr>)
   \<and> nowReads (snd (decide rapidEnv bucket100ms (Inr ''2|2023-11-14T22:13:20Z'') (emptyWorld\<lparr>nowReads := 3\<rparr>))) = 5
   \<and> encodeRecord (wrap64 (3 - 1)) \<lparr>unixNano = 1700000000904000000, zoneOffset = 0\<rparr>
     = ''2|2023-11-14T22:13:20Z''"
  by code_simp

lemma rapid_fourth:
  "fst (decide rapidEnv bucket100ms (Inr ''2|2023-11-14T22:13:20Z'') (emptyWorld\<lparr>nowReads := 5\<rparr>))
     = Inr (3, \<lparr>unixNano = 1700000000906000000, zoneOffset = 0\<rparr>)
   \<and> nowReads (snd (decide rapidEnv bucket100ms (Inr ''2|2023-11-14T22:13:20Z'') (emptyWorld\<lparr>nowReads := 5\<rparr>))) = 7
   \<and> encodeRecord (wrap64 (3 - 1)) \<lparr>unixNano = 1700000000906000000, zoneOffset = 0\<rparr>
     = ''2|2023-11-14T22:13:20Z''"
  by code_simp

lemma rapid_fifth:
  "fst (decide rapidEnv bucket100ms (Inr ''2|2023-11-14T22:13:20Z'') (emptyWorld\<lparr>nowReads := 7\<rparr>))
     = Inr (3, \<lparr>unixNano = 1700000000908000000, zoneOffset = 0\<rparr>)
   \<and> nowReads (snd (decide rapidEnv bucket100ms (Inr ''2|2023-11-14T22:13:20Z'') (emptyWorld\<lparr>nowReads := 7\<rparr>))) = 9
   \<and> encodeRecord (wrap64 (3 - 1)) \<lparr>unixNano = 1700000000908000000, zoneOffset = 0\<rparr>
     = ''2|2023-11-14T22:13:20Z''"
  by code_simp

lemma rapid_sixth:
  "fst (decide rapidEnv bucket100ms (Inr ''2|2023-11-14T22:13:20Z'') (emptyWorld\<lparr>nowReads := 9\<rparr>))
     = Inr (3, \<lparr>unixNano = 1700000000910000000, zoneOffset = 0\<rparr>)
   \<and> nowReads (snd (decide rapidEnv bucket100ms (Inr ''2|2023-11-14T22:13:20Z'') (emptyWorld\<lparr>nowReads := 9\<rparr>))) = 11
   \<and> encodeRecord (wrap64 (3 - 1)) \<lparr>unixNano = 1700000000910000000, zoneOffset = 0\<rparr>
     = ''2|2023-11-14T22:13:20Z''"
  by code_simp

lemma core_bucket100ms:  "core bucket100ms = Some (Client ''localhost:6379'')"
  by (simp add: bucket100ms_def NewRedisBucketWithClient_def)

lemma rapid_run:
  "map_option (\<lambda>x. (fst x, committed (snd x)))
     (Walks rapidEnv bucket100ms [request1, request1, request1, request1, request1, request1] emptyWorld)
     = Some ([None, None, None, None, None, None],
             [(''ginratelimiter:10.0.0.1'', ''2|2023-11-14T22:13:20Z'', 1800000000000),
              (''ginratelimiter:10.0.0.1'', ''2|2023-11-14T22:13:20Z'', 1800000000000),
              (''ginratelimiter:10.0.0.1'', ''2|2023-11-14T22:13:20Z'', 1800000000000),
              (''ginratelimiter:10.0.0.1'', ''2|2023-11-14T22:13:20Z'', 1800000000000),
              (''ginratelimiter:10.0.0.1'', ''2|2023-11-14T22:13:20Z'', 1800000000000),
              (''ginratelimiter:10.0.0.1'', ''2|2023-11-14T22:13:20Z'', 1800000000000)])"
proof -
  let ?k = "storeKey (ClientIP request1)"
  have q: "quiet rapidEnv" and f: "faultless rapidEnv"
    by (simp_all add: quiet_def faultless_def rapidEnv_def quietEnv_def)
  have c: "core bucket100ms \<noteq> None" by (simp add: core_bucket100ms)
  have ttl: "dur bucket100ms = 1800000000000"
    by (simp add: bucket100ms_def NewRedisBucketWithClient_def DurationDefault_def)
  have key: "?k = ''ginratelimiter:10.0.0.1''"
    by (simp add: storeKey_def request1_def)
  note step = Walk_quiet_step [OF q f c, where ctx = request1]
  have s0: "db emptyWorld ?k = None" "nowReads emptyWorld = 0" "committed emptyWorld = []"
    by (simp_all add: emptyWorld_def)
  from step [OF s0(1,2)] rapid_first s0(3) obtain w1
    where w1: "Walk rapidEnv bucket100ms request1 emptyWorld = Some (None, w1)" "nowReads w1 = 1"
      "db w1 ?k = Some (''2|2023-11-14T22:13:20Z'', dur bucket100ms)"
      "committed w1 = [(?k, ''2|2023-11-14T22:13:20Z'', dur bucket100ms)]"
    by force
  from step [OF w1(3,2)] rapid_second obtain w2
    where w2: "Walk rapidEnv bucket100ms request1 w1 = Some (None, w2)" "nowReads w2 = 3"
      "db w2 ?k = Some (''2|2023-11-14T22:13:20Z'', dur bucket100ms)"
      "committed w2 = committed w1 @ [(?k, ''2|2023-11-14T22:13:20Z'', dur bucket100ms)]"
    by force
  from step [OF w2(3,2)] rapid_third obtain w3
    where w3: "Walk rapidEnv bucket100ms request1 w2 = Some (None, w3)" "nowReads w3 = 5"
      "db w3 ?k = Some (''2|2023-11-14T22:13:20Z'', dur bucket100ms)"
      "committed w3 = committed w2 @ [(?k, ''2|2023-11-14T22:13:20Z'', dur bucket100ms)]"
    by force
  from step [OF w3(3,2)] rapid_fourth obtain w4
    where w4: "Walk rapidEnv bucket100ms request1 w3 = Some (None, w4)" "nowReads w4 = 7"
      "db w4 ?k = Some (''2|2023-11-14T22:13:20Z'', dur bucket100ms)"
      "committed w4 = committed w3 @ [(?k, ''2|2023-11-14T22:13:20Z'', dur bucket100ms)]"
    by force
  from step [OF w4(3,2)] rapid_fifth obtain w5
    where w5: "Walk rapidEnv bucket100ms request1 w4 = Some (None, w5)" "nowReads w5 = 9"
      "db w5 ?k = Some (''2|2023-11-14T22:13:20Z'', dur bucket100ms)"
      "committed w5 = committed w4 @ [(?k, ''2|2023-11-14T22:13:20Z'', dur bucket100ms)]"
    by force
  from step [OF w5(3,2)] rapid_sixth obtain w6
    where w6: "Walk rapidEnv bucket100ms request1 w5 = Some (None, w6)" "nowReads w6 = 11"
      "db w6 ?k = Some (''2|2023-11-14T22:13:20Z'', dur bucket100ms)"
      "committed w6 = committed w5 @ [(?k, ''2|2023-11-14T22:13:20Z'', dur bucket100ms)]"
    by force
  have "Walks rapidEnv bucket100ms [request1, request1, request1, request1, request1, request1] emptyWorld
          = Some ([None, None, None, None, None, None], w6)"
    using w1(1) w2(1) w3(1) w4(1) w5(1) w6(1) by simp
  then show ?thesis
    using w1(4) w2(4) w3(4) w4(4) w5(4) w6(4) ttl key by simp
qed

lemma decide_zero_refill_time:
  "fst (decide quietEnv (bucket3\<lparr>tokenAppendTime := 0\<rparr>) (Inr ''0|2023-11-14T22:13:20Z'')
          (emptyWorld\<lparr>nowReads := 0\<rparr>))
     = Inl PanicDivideByZero"
  by code_simp

lemma core_bucket3:  "core bucket3 = Some (Client ''localhost:6379'')"
  by (simp add: bucket3_def NewRedisBucketWithClient_def)

lemma burst_run:
  "map_option (\<lambda>x. (fst x, committed (snd x)))
     (Walks burstEnv bucket3 [request1, request1, request1, request1, request1] emptyWorld)
     = Some ([None, None, None, Some ErrNoTokensAwailable, None],
             [(''ginratelimiter:10.0.0.1'', ''2|2023-11-14T22:13:20Z'', 1800000000000),
              (''ginratelimiter:10.0.0.1'', ''1|2023-11-14T22:13:20Z'', 1800000000000),
              (''ginratelimiter:10.0.0.1'', ''0|2023-11-14T22:13:20Z'', 1800000000000),
              (''ginratelimiter:10.0.0.1'', ''0|2023-11-14T22:13:30Z'', 1800000000000)])"
proof -
  let ?k = "storeKey (ClientIP request1)"
  have q: "quiet burstEnv" and f: "faultless burstEnv"
    by (simp_all add: quiet_def faultless_def burstEnv_def quietEnv_def)
  have c: "core bucket3 \<noteq> None" by (simp add: core_bucket3)
  have ttl: "dur bucket3 = 1800000000000"
    by (simp add: bucket3_def NewRedisBucketWithClient_def DurationDefault_def)
  have key: "?k = ''ginratelimiter:10.0.0.1''"
    by (simp add: storeKey_def request1_def)
  note step = Walk_quiet_step [OF q f c, where ctx = request1]
  have s0: "db emptyWorld ?k = None" "nowReads emptyWorld = 0" "committed emptyWorld = []"
    by (simp_all add: emptyWorld_def)
  from step [OF s0(1,2)] burst_first s0(3) obtain w1
    where w1: "Walk burstEnv bucket3 request1 emptyWorld = Some (None, w1)" "nowReads w1 = 1"
      "db w1 ?k = Some (''2|2023-11-14T22:13:20Z'', dur bucket3)"
      "committed w1 = [(?k, ''2|2023-11-14T22:13:20Z'', dur bucket3)]"
    by force
  from step [OF w1(3,2)] burst_second w1(4) obtain w2
    where w2: "Walk burstEnv bucket3 request1 w1 = Some (None, w2)" "nowReads w2 = 2"
      "db w2 ?k = Some (''1|2023-11-14T22:13:20Z'', dur bucket3)"
      "committed w2 = [(?k, ''2|2023-11-14T22:13:20Z'', dur bucket3), (?k, ''1|2023-11-14T22:13:20Z'', dur bucket3)]"
    by force
  from step [OF w2(3,2)] burst_third w2(4) obtain w3
    where w3: "Walk burstEnv bucket3 request1 w2 = Some (None, w3)" "nowReads w3 = 3"
      "db w3 ?k = Some (''0|2023-11-14T22:13:20Z'', dur bucket3)"
      "committed w3 = [(?k, ''2|2023-11-14T22:13:20Z'', dur bucket3), (?k, ''1|2023-11-14T22:13:20Z'', dur bucket3),
                       (?k, ''0|2023-11-14T22:13:20Z'', dur bucket3)]"
    by force
  from step [OF w3(3,2)] burst_fourth w3(4) obtain w4
    where w4: "Walk burstEnv bucket3 request1 w3 = Some (Some ErrNoTokensAwailable, w4)" "nowReads w4 = 4"
      "db w4 ?k = Some (''0|2023-11-14T22:13:20Z'', dur bucket3)"
      "committed w4 = [(?k, ''2|2023-11-14T22:13:20Z'', dur bucket3), (?k, ''1|2023-11-14T22:13:20Z'', dur bucket3),
                       (?k, ''0|2023-11-14T22:13:20Z'', dur bucket3)]"
    by force
  from step [OF w4(3,2)] burst_fifth w4(4) obtain w5
    where w5: "Walk burstEnv bucket3 request1 w4 = Some (None, w5)"
      "committed w5 = [(?k, ''2|2023-11-14T22:13:20Z'', dur bucket3), (?k, ''1|2023-11-14T22:13:20Z'', dur bucket3),
                       (?k, ''0|2023-11-14T22:13:20Z'', dur bucket3), (?k, ''0|2023-11-14T22:13:30Z'', dur bucket3)]"
    by force
  have "Walks burstEnv bucket3 [request1, request1, request1, request1, request1] emptyWorld
          = Some ([None, None, None, Some ErrNoTokensAwailable, None], w5)"
    using w1(1) w2(1) w3(1) w4(1) w5(1) by simp
  then show ?thesis
    using w5(2) ttl key by simp
qed

subsection \<open>C10\<close>

text \<open>
  C10. If the bucket's store client is nil, every call of \<open>Walk\<close> returns an error at
  once: the result is the error \<open>redis core is nil\<close> whatever the request and the
  environment are, and the state is the one the call started in, so no command was
  sent to the store, the clock was not read and nothing was retried.
\<close>

theorem Walk_nil_client:
  "core b = None \<Longrightarrow> Walk env b ctx w = Some (Some (ErrorsNew ''redis core is nil''), w)"
  by (simp add: Walk_def)

theorem Walk_nil_client_witness:
  "core (bucket3\<lparr>core := None\<rparr>) = None \<and>
   Walk racingEnv (bucket3\<lparr>core := None\<rparr>) request1 emptyWorld
     = Some (Some (ErrorsNew ''redis core is nil''), emptyWorld)"
  using Walk_nil_client [of "bucket3\<lparr>core := None\<rparr>" racingEnv request1 emptyWorld] by simp

subsection \<open>C3\<close>

text \<open>
  C3. In the loop of \<open>Walk\<close>, an attempt that ends with the write conflict
  (\<open>redis.TxFailedErr\<close>, which only the refused conditional write produces: the
  attempt sent \<open>WATCH\<close>, \<open>GET\<close>, the transaction and \<open>UNWATCH\<close>, and committed
  nothing) makes the call go on exactly as a call started in the state that attempt
  left; an attempt that ends with any other error makes the call return that error in
  the state that attempt left, without another attempt; and the conflict is never what
  the call returns.
\<close>

theorem Walk_retries_conflict_only:
  assumes "core b \<noteq> None"
  shows "(attempt env b (ClientIP ctx) w = (Some TxFailedErr, w1) \<longrightarrow>
            Walk env b ctx w = Walk env b ctx w1 \<and> committed w1 = committed w \<and>
            (\<exists>v. sent w1 = sent w @ [WATCH (storeKey (ClientIP ctx)), GET (storeKey (ClientIP ctx)),
                                      EXEC_SET (storeKey (ClientIP ctx)) v (dur b), UNWATCH]))
       \<and> (attempt env b (ClientIP ctx) u = (Some e, u1) \<and> e \<noteq> TxFailedErr \<longrightarrow>
            Walk env b ctx u = Some (Some e, u1))
       \<and> (Walk env b ctx x = Some (r, x1) \<longrightarrow> r \<noteq> Some TxFailedErr)"
proof -
  have W: "Walk env b ctx s = walkLoop env b (ClientIP ctx) s" for s
    using assms by (auto simp: Walk_def)
  show ?thesis
    unfolding W
  proof (intro conjI impI)
    assume a: "attempt env b (ClientIP ctx) w = (Some TxFailedErr, w1)"
    show "walkLoop env b (ClientIP ctx) w = walkLoop env b (ClientIP ctx) w1"
      by (rule walkLoop_retry [OF a])
    show "committed w1 = committed w"
      by (rule attempt_conflict(1) [OF a])
    show "\<exists>v. sent w1 = sent w @ [WATCH (storeKey (ClientIP ctx)), GET (storeKey (ClientIP ctx)),
                                     EXEC_SET (storeKey (ClientIP ctx)) v (dur b), UNWATCH]"
      by (rule attempt_conflict(2) [OF a])
  next
    assume "attempt env b (ClientIP ctx) u = (Some e, u1) \<and> e \<noteq> TxFailedErr"
    then show "walkLoop env b (ClientIP ctx) u = Some (Some e, u1)"
      using walkLoop_return [of env b "ClientIP ctx" u "Some e" u1] by simp
  next
    assume "walkLoop env b (ClientIP ctx) x = Some (r, x1)"
    from walkLoop_last [OF this, of "\<lambda>_. True"] show "r \<noteq> Some TxFailedErr" by simp
  qed
qed

theorem Walk_retries_conflict_only_witness:
  "core bucket3 \<noteq> None
   \<and> attempt racingEnv bucket3 (ClientIP request1) emptyWorld
       = (Some TxFailedErr, snd (attempt racingEnv bucket3 (ClientIP request1) emptyWorld))
   \<and> Walk racingEnv bucket3 request1 emptyWorld
       = Walk racingEnv bucket3 request1 (snd (attempt racingEnv bucket3 (ClientIP request1) emptyWorld))
   \<and> attempt failingEnv bucket3 (ClientIP request1) emptyWorld
       = (Some (StoreError ''i/o timeout''), snd (attempt failingEnv bucket3 (ClientIP request1) emptyWorld))
   \<and> StoreError ''i/o timeout'' \<noteq> TxFailedErr
   \<and> Walk failingEnv bucket3 request1 emptyWorld
       = Some (Some (StoreError ''i/o timeout''), snd (attempt failingEnv bucket3 (ClientIP request1) emptyWorld))"
proof -
  have c: "core bucket3 \<noteq> None" by (simp add: core_bucket3)
  have ip: "ClientIP request1 = ''10.0.0.1''" by (simp add: request1_def)
  have r: "attempt racingEnv bucket3 (ClientIP request1) emptyWorld
       = (Some TxFailedErr, snd (attempt racingEnv bucket3 (ClientIP request1) emptyWorld))"
    using attempt_racing unfolding ip by (simp add: prod_eq_iff)
  have f: "attempt failingEnv bucket3 (ClientIP request1) emptyWorld
       = (Some (StoreError ''i/o timeout''), snd (attempt failingEnv bucket3 (ClientIP request1) emptyWorld))"
    using attempt_failing unfolding ip by (simp add: prod_eq_iff)
  from Walk_retries_conflict_only [OF c, of racingEnv request1 emptyWorld _ emptyWorld]
  have 1: "Walk racingEnv bucket3 request1 emptyWorld
       = Walk racingEnv bucket3 request1 (snd (attempt racingEnv bucket3 (ClientIP request1) emptyWorld))"
    using r by blast
  from Walk_retries_conflict_only [OF c, of failingEnv request1 emptyWorld _ emptyWorld]
  have 2: "Walk failingEnv bucket3 request1 emptyWorld
       = Some (Some (StoreError ''i/o timeout''), snd (attempt failingEnv bucket3 (ClientIP request1) emptyWorld))"
    using f by blast
  show ?thesis using c r f 1 2 by simp
qed

subsection \<open>C9\<close>

text \<open>
  C9, as stated, fails: before the handler aborts a request with status 500 it writes
  the error to the limiter's logger, and \<open>NewLimiter\<close> stores a \<open>nil\<close> logger as it
  is given. With such a limiter and a bucket whose \<open>Walk\<close> returns an error other than
  \<open>ErrNoTokensAwailable\<close> (here the bucket without a client) the handler panics at the
  write: the request is not aborted and has no response.
\<close>

theorem nil_logger_panics:
  "Walk quietEnv (bucket3\<lparr>core := None\<rparr>) request1 emptyWorld
     = Some (Some (ErrorsNew ''redis core is nil''), emptyWorld)
   \<and> WalkThrough
        (NewLimiter Background (Some (Walk quietEnv (bucket3\<lparr>core := None\<rparr>))) None
           DefaultServerError DefaultTooManyRequestsError)
        (request1, [], emptyWorld)
      = Some (Some NilPointerDereference, request1, [], emptyWorld)
   \<and> aborted request1 = False \<and> response request1 = None"
  by (simp add: WalkThrough_def NewLimiter_def Walk_def errors_Is_def request1_def)

text \<open>
  C9, amended. When the \<open>Walk\<close> of the limiter's bucket returns, the handler of
  \<open>WalkThrough\<close> maps what it returns: for no error the request is left as it was;
  for \<open>ErrNoTokensAwailable\<close> the request is aborted with status 429 and the limiter's
  too-many-requests body, and nothing is written to the logger; for any other error, when
  the limiter has a logger, the error is written to the logger (the error of the write
  is dropped) and the request is aborted with status 500 and the limiter's server-error
  body. Without a logger the handler panics at the write, and a panic of \<open>Walk\<close> goes
  through the handler; in both cases the request is left as it was. The \<open>Walk\<close> of a
  bucket that the constructors build does not panic.
\<close>

theorem WalkThrough_maps_outcome:
  assumes "bucket l = Some bkt" and "bkt ctx w = Some (r, w1)"
  shows "(r = None \<longrightarrow> WalkThrough l (ctx, logged, w) = Some (None, ctx, logged, w1))
       \<and> (r = Some ErrNoTokensAwailable \<longrightarrow>
            WalkThrough l (ctx, logged, w)
              = Some (None, ctx\<lparr>aborted := True, response := Some (429, tooManyRequestsError l)\<rparr>,
                      logged, w1))
       \<and> (r = Some err \<and> err \<noteq> ErrNoTokensAwailable \<and> err \<noteq> PanicDivideByZero
            \<and> logger l = Some wr \<longrightarrow>
            WalkThrough l (ctx, logged, w)
              = Some (None, ctx\<lparr>aborted := True, response := Some (500, serverError l)\<rparr>,
                      snd (wr err logged), w1))
       \<and> (r = Some err \<and> err \<noteq> ErrNoTokensAwailable \<and> err \<noteq> PanicDivideByZero
            \<and> logger l = None \<longrightarrow>
            WalkThrough l (ctx, logged, w) = Some (Some NilPointerDereference, ctx, logged, w1))
       \<and> (r = Some PanicDivideByZero \<longrightarrow>
            WalkThrough l (ctx, logged, w) = Some (Some IntegerDivideByZero, ctx, logged, w1))
       \<and> (validBucket b \<and> bkt = Walk env b \<longrightarrow> r \<noteq> Some PanicDivideByZero)"
proof -
  have c1: "r = None \<longrightarrow> WalkThrough l (ctx, logged, w) = Some (None, ctx, logged, w1)"
    using assms by (simp add: WalkThrough_def)
  have c2: "r = Some ErrNoTokensAwailable \<longrightarrow>
            WalkThrough l (ctx, logged, w)
              = Some (None, ctx\<lparr>aborted := True, response := Some (429, tooManyRequestsError l)\<rparr>,
                      logged, w1)"
    using assms by (simp add: WalkThrough_def AbortWithStatusJSON_def errors_Is_def)
  have c3: "r = Some err \<and> err \<noteq> ErrNoTokensAwailable \<and> err \<noteq> PanicDivideByZero
            \<and> logger l = Some wr \<longrightarrow>
            WalkThrough l (ctx, logged, w)
              = Some (None, ctx\<lparr>aborted := True, response := Some (500, serverError l)\<rparr>,
                      snd (wr err logged), w1)"
    using assms by (simp add: WalkThrough_def AbortWithStatusJSON_def errors_Is_def split: prod.splits)
  have c4: "r = Some err \<and> err \<noteq> ErrNoTokensAwailable \<and> err \<noteq> PanicDivideByZero
            \<and> logger l = None \<longrightarrow>
            WalkThrough l (ctx, logged, w) = Some (Some NilPointerDereference, ctx, logged, w1)"
    using assms by (simp add: WalkThrough_def errors_Is_def)
  have c5: "r = Some PanicDivideByZero \<longrightarrow>
            WalkThrough l (ctx, logged, w) = Some (Some IntegerDivideByZero, ctx, logged, w1)"
    using assms by (simp add: WalkThrough_def)
  have c6: "validBucket b \<and> bkt = Walk env b \<longrightarrow> r \<noteq> Some PanicDivideByZero"
    using assms(2) Walk_not_panic [of env b ctx w w1] by (auto simp: validBucket_def)
  from c1 c2 c3 c4 c5 c6 show ?thesis by (intro conjI)
qed

theorem WalkThrough_maps_outcome_witness:
  "validBucket bucket3
   \<and> Walk quietEnv bucket3 request1 emptyWorld
       = Some (None, snd (attempt quietEnv bucket3 ''10.0.0.1'' emptyWorld))
   \<and> WalkThrough
        (NewLimiter Background (Some (Walk quietEnv bucket3)) (Some bufferWriter)
           DefaultServerError DefaultTooManyRequestsError)
        (request1, [], emptyWorld)
      = Some (None, request1, [], snd (attempt quietEnv bucket3 ''10.0.0.1'' emptyWorld))
   \<and> Walk quietEnv bucket3 request1 (storing ''0|2023-11-14T22:13:20Z'')
       = Some (Some ErrNoTokensAwailable,
               snd (the (Walk quietEnv bucket3 request1 (storing ''0|2023-11-14T22:13:20Z''))))
   \<and> WalkThrough
        (NewLimiter Background (Some (Walk quietEnv bucket3)) (Some bufferWriter)
           DefaultServerError DefaultTooManyRequestsError)
        (request1, [], storing ''0|2023-11-14T22:13:20Z'')
      = Some (None, request1\<lparr>aborted := True, response := Some (429, DefaultTooManyRequestsError)\<rparr>, [],
              snd (the (Walk quietEnv bucket3 request1 (storing ''0|2023-11-14T22:13:20Z''))))
   \<and> Walk failingEnv bucket3 request1 emptyWorld
       = Some (Some (StoreError ''i/o timeout''), snd (attempt failingEnv bucket3 ''10.0.0.1'' emptyWorld))
   \<and> WalkThrough
        (NewLimiter Background (Some (Walk failingEnv bucket3)) (Some bufferWriter)
           DefaultServerError DefaultTooManyRequestsError)
        (request1, [], emptyWorld)
      = Some (None, request1\<lparr>aborted := True, response := Some (500, DefaultServerError)\<rparr>,
              [StoreError ''i/o timeout''], snd (attempt failingEnv bucket3 ''10.0.0.1'' emptyWorld))
   \<and> Walk quietEnv (bucket3\<lparr>core := None\<rparr>) request1 emptyWorld
       = Some (Some (ErrorsNew ''redis core is nil''), emptyWorld)
   \<and> WalkThrough
        (NewLimiter Background (Some (Walk quietEnv (bucket3\<lparr>core := None\<rparr>))) (Some closedWriter)
           DefaultServerError DefaultTooManyRequestsError)
        (request1, [], emptyWorld)
      = Some (None, request1\<lparr>aborted := True, response := Some (500, DefaultServerError)\<rparr>, [], emptyWorld)
   \<and> WalkThrough
        (NewLimiter Background (Some (Walk failingEnv bucket3)) None
           DefaultServerError DefaultTooManyRequestsError)
        (request1, [], emptyWorld)
      = Some (Some NilPointerDereference, request1, [],
              snd (attempt failingEnv bucket3 ''10.0.0.1'' emptyWorld))
   \<and> Walk quietEnv (bucket3\<lparr>tokenAppendTime := 0\<rparr>) request1 (storing ''0|2023-11-14T22:13:20Z'')
       = Some (Some PanicDivideByZero,
               snd (the (Walk quietEnv (bucket3\<lparr>tokenAppendTime := 0\<rparr>) request1
                           (storing ''0|2023-11-14T22:13:20Z''))))
   \<and> WalkThrough
        (NewLimiter Background (Some (Walk quietEnv (bucket3\<lparr>tokenAppendTime := 0\<rparr>))) (Some bufferWriter)
           DefaultServerError DefaultTooManyRequestsError)
        (request1, [], storing ''0|2023-11-14T22:13:20Z'')
      = Some (Some IntegerDivideByZero, request1, [],
              snd (the (Walk quietEnv (bucket3\<lparr>tokenAppendTime := 0\<rparr>) request1
                          (storing ''0|2023-11-14T22:13:20Z''))))"
proof -
  let ?ok = "NewLimiter Background (Some (Walk quietEnv bucket3)) (Some bufferWriter)
               DefaultServerError DefaultTooManyRequestsError"
  let ?failing = "NewLimiter Background (Some (Walk failingEnv bucket3)) (Some bufferWriter)
               DefaultServerError DefaultTooManyRequestsError"
  let ?nocore = "NewLimiter Background (Some (Walk quietEnv (bucket3\<lparr>core := None\<rparr>))) (Some closedWriter)
               DefaultServerError DefaultTooManyRequestsError"
  let ?nolog = "NewLimiter Background (Some (Walk failingEnv bucket3)) None
               DefaultServerError DefaultTooManyRequestsError"
  let ?zero = "bucket3\<lparr>tokenAppendTime := 0\<rparr>"
  let ?dividing = "NewLimiter Background (Some (Walk quietEnv ?zero)) (Some bufferWriter)
               DefaultServerError DefaultTooManyRequestsError"
  let ?full = "storing ''0|2023-11-14T22:13:20Z''"
  have ip: "ClientIP request1 = ''10.0.0.1''" by (simp add: request1_def)
  have cb: "core bucket3 \<noteq> None" by (simp add: core_bucket3)
  have q: "quiet quietEnv" "faultless quietEnv" "db emptyWorld (storeKey ''10.0.0.1'') = None"
    by (simp_all add: quiet_def faultless_def quietEnv_def emptyWorld_def)
  have "attempt quietEnv bucket3 ''10.0.0.1'' emptyWorld
          = (None, snd (attempt quietEnv bucket3 ''10.0.0.1'' emptyWorld))"
    using attempt_fresh(1) [OF q, of bucket3] by (simp add: prod_eq_iff)
  from walkLoop_return [OF this]
  have w1: "Walk quietEnv bucket3 request1 emptyWorld
              = Some (None, snd (attempt quietEnv bucket3 ''10.0.0.1'' emptyWorld))"
    using cb ip by (simp add: Walk_def)
  have w2: "Walk quietEnv bucket3 request1 ?full
              = Some (Some ErrNoTokensAwailable, snd (the (Walk quietEnv bucket3 request1 ?full)))"
    by (rule result_of [OF Walk_exhausted])
  have "attempt failingEnv bucket3 ''10.0.0.1'' emptyWorld
          = (Some (StoreError ''i/o timeout''), snd (attempt failingEnv bucket3 ''10.0.0.1'' emptyWorld))"
    using attempt_failing by (simp add: prod_eq_iff)
  from walkLoop_return [OF this]
  have w3: "Walk failingEnv bucket3 request1 emptyWorld
              = Some (Some (StoreError ''i/o timeout''), snd (attempt failingEnv bucket3 ''10.0.0.1'' emptyWorld))"
    using cb ip by (simp add: Walk_def)
  have w4: "Walk quietEnv (bucket3\<lparr>core := None\<rparr>) request1 emptyWorld
              = Some (Some (ErrorsNew ''redis core is nil''), emptyWorld)"
    by (simp add: Walk_def)
  have st: "db ?full (storeKey (ClientIP request1)) = Some (''0|2023-11-14T22:13:20Z'', 1800000000000)"
    "nowReads ?full = 0"
    by (simp_all add: storing_def request1_def emptyWorld_def)
  have cz: "core ?zero \<noteq> None" using cb by simp
  from Walk_quiet_step [OF q(1,2) cz st, where x = "Inl PanicDivideByZero"] decide_zero_refill_time
  obtain w' where "Walk quietEnv ?zero request1 ?full = Some (Some PanicDivideByZero, w')"
    by force
  then have w5: "Walk quietEnv ?zero request1 ?full
              = Some (Some PanicDivideByZero, snd (the (Walk quietEnv ?zero request1 ?full)))"
    by simp
  have b: "bucket ?ok = Some (Walk quietEnv bucket3)" "bucket ?failing = Some (Walk failingEnv bucket3)"
    "bucket ?nocore = Some (Walk quietEnv (bucket3\<lparr>core := None\<rparr>))"
    "bucket ?nolog = Some (Walk failingEnv bucket3)" "bucket ?dividing = Some (Walk quietEnv ?zero)"
    by (simp_all add: NewLimiter_def)
  have f: "logger ?ok = Some bufferWriter" "logger ?failing = Some bufferWriter"
    "logger ?nocore = Some closedWriter"
    "tooManyRequestsError ?ok = DefaultTooManyRequestsError"
    "serverError ?failing = DefaultServerError" "serverError ?nocore = DefaultServerError"
    "logger ?nolog = None"
    by (simp_all add: NewLimiter_def)
  have wr: "snd (bufferWriter (StoreError ''i/o timeout'') []) = [StoreError ''i/o timeout'']"
    "snd (closedWriter (ErrorsNew ''redis core is nil'') []) = []"
    by (simp_all add: bufferWriter_def closedWriter_def)
  have r1: "WalkThrough ?ok (request1, [], emptyWorld)
      = Some (None, request1, [], snd (attempt quietEnv bucket3 ''10.0.0.1'' emptyWorld))"
    using WalkThrough_maps_outcome [OF b(1) w1, where logged = "[]"] by simp
  have r2: "WalkThrough ?ok (request1, [], ?full)
      = Some (None, request1\<lparr>aborted := True, response := Some (429, DefaultTooManyRequestsError)\<rparr>, [],
              snd (the (Walk quietEnv bucket3 request1 ?full)))"
    using WalkThrough_maps_outcome [OF b(1) w2, where logged = "[]"] f(4) by simp
  have r3: "WalkThrough ?failing (request1, [], emptyWorld)
      = Some (None, request1\<lparr>aborted := True, response := Some (500, DefaultServerError)\<rparr>,
              [StoreError ''i/o timeout''], snd (attempt failingEnv bucket3 ''10.0.0.1'' emptyWorld))"
    using WalkThrough_maps_outcome
        [OF b(2) w3, where logged = "[]" and err = "StoreError ''i/o timeout''" and wr = bufferWriter]
      f(2,5) wr(1)
    by simp
  have r4: "WalkThrough ?nocore (request1, [], emptyWorld)
      = Some (None, request1\<lparr>aborted := True, response := Some (500, DefaultServerError)\<rparr>, [], emptyWorld)"
    using WalkThrough_maps_outcome
        [OF b(3) w4, where logged = "[]" and err = "ErrorsNew ''redis core is nil''" and wr = closedWriter]
      f(3,6) wr(2)
    by simp
  have r5: "WalkThrough ?nolog (request1, [], emptyWorld)
      = Some (Some NilPointerDereference, request1, [],
              snd (attempt failingEnv bucket3 ''10.0.0.1'' emptyWorld))"
    using WalkThrough_maps_outcome
        [OF b(4) w3, where logged = "[]" and err = "StoreError ''i/o timeout''"] f(7)
    by simp
  have r6: "WalkThrough ?dividing (request1, [], ?full)
      = Some (Some IntegerDivideByZero, request1, [], snd (the (Walk quietEnv ?zero request1 ?full)))"
    using WalkThrough_maps_outcome [OF b(5) w5, where logged = "[]"] by simp
  show ?thesis
    using validBucket_bucket3 w1 r1 w2 r2 w3 r3 w4 r4 r5 w5 r6 by (intro conjI)
qed

subsection \<open>C6\<close>

text \<open>
  C6, as stated, fails: the layout of RFC 3339 has no fraction of a second, so the time
  that is read back is the encoded time cut to the whole second. For the first clock
  reading of the quiet environment (123456789 nanoseconds into its second), which is
  the time the package encodes for a fresh identity, decoding the encoded pair does
  not give the pair back.
\<close>

theorem codec_drops_fraction:
  "decodeRecord (encodeRecord 2 \<lparr>unixNano = 1700000000123456789, zoneOffset = 0\<rparr>)
     = Inr (2, \<lparr>unixNano = 1700000000000000000, zoneOffset = 0\<rparr>)
   \<and> decodeRecord (encodeRecord 2 \<lparr>unixNano = 1700000000123456789, zoneOffset = 0\<rparr>)
     \<noteq> Inr (2, \<lparr>unixNano = 1700000000123456789, zoneOffset = 0\<rparr>)"
proof -
  have "inInt64 2" by (simp add: inInt64_def minInt64_def maxInt64_def)
  moreover have "inRFC3339Range \<lparr>unixNano = 1700000000123456789, zoneOffset = 0\<rparr>"
    by (simp add: inRFC3339Range_def)
  ultimately show ?thesis
    by (simp add: decode_encode truncateSecond_def)
qed

text \<open>
  C6, amended. For every number of tokens in the range of \<open>int\<close> and every time that
  the layout can carry (a year from 0 to 9999, a zone offset of whole minutes), decoding
  the encoded record yields the same tokens and the time cut to the whole second; it
  yields exactly the same pair when the time has no fraction of a second.
\<close>

theorem codec_round_trip:
  assumes "inInt64 n" "inRFC3339Range t"
  shows "decodeRecord (encodeRecord n t) = Inr (n, truncateSecond t)
         \<and> (unixNano t mod 1000000000 = 0 \<longrightarrow> decodeRecord (encodeRecord n t) = Inr (n, t))"
  using decode_encode [OF assms] truncateSecond_whole [of t] by simp

theorem codec_round_trip_witness:
  "inInt64 2
   \<and> inRFC3339Range \<lparr>unixNano = 1700000000123456789, zoneOffset = 3600\<rparr>
   \<and> decodeRecord (encodeRecord 2 \<lparr>unixNano = 1700000000123456789, zoneOffset = 3600\<rparr>)
       = Inr (2, truncateSecond \<lparr>unixNano = 1700000000123456789, zoneOffset = 3600\<rparr>)
   \<and> inRFC3339Range \<lparr>unixNano = 1700000000000000000, zoneOffset = 0\<rparr>
   \<and> unixNano \<lparr>unixNano = 1700000000000000000, zoneOffset = 0\<rparr> mod 1000000000 = 0
   \<and> decodeRecord (encodeRecord 2 \<lparr>unixNano = 1700000000000000000, zoneOffset = 0\<rparr>)
       = Inr (2, \<lparr>unixNano = 1700000000000000000, zoneOffset = 0\<rparr>)"
proof -
  have n: "inInt64 2" by (simp add: inInt64_def minInt64_def maxInt64_def)
  have t1: "inRFC3339Range \<lparr>unixNano = 1700000000123456789, zoneOffset = 3600\<rparr>"
    and t2: "inRFC3339Range \<lparr>unixNano = 1700000000000000000, zoneOffset = 0\<rparr>"
    by (simp_all add: inRFC3339Range_def)
  have m: "unixNano \<lparr>unixNano = 1700000000000000000, zoneOffset = 0\<rparr> mod 1000000000 = 0"
    by simp
  have r1: "decodeRecord (encodeRecord 2 \<lparr>unixNano = 1700000000123456789, zoneOffset = 3600\<rparr>)
       = Inr (2, truncateSecond \<lparr>unixNano = 1700000000123456789, zoneOffset = 3600\<rparr>)"
    using codec_round_trip [OF n t1] by blast
  have r2: "decodeRecord (encodeRecord 2 \<lparr>unixNano = 1700000000000000000, zoneOffset = 0\<rparr>)
       = Inr (2, \<lparr>unixNano = 1700000000000000000, zoneOffset = 0\<rparr>)"
    using codec_round_trip [OF n t2] m by blast
  show ?thesis
    using n t1 r1 t2 m r2 by (intro conjI)
qed

subsection \<open>C5\<close>

text \<open>
  C5, as stated, fails in two ways. Only a wrong number of separators gives
  \<open>ErrBadSyntaxInStorage\<close>: a first field that is no integer gives the error of
  \<open>strconv.Atoi\<close>, and a second field that is no timestamp gives the error of
  \<open>time.Parse\<close>; \<open>Walk\<close> returns them as they are. And \<open>time.Parse\<close> accepts
  second fields that are not valid RFC 3339 timestamps: with a one-digit hour, a comma
  before the fraction and a zone offset of 24:60 the stored value decodes without an
  error, and the request is admitted.
\<close>

theorem malformed_field_is_not_bad_syntax:
  "map_option fst (Walk quietEnv bucket3 request1 (storing ''x|2023-11-14T22:13:20Z''))
     = Some (Some (NumError ''x'' ErrSyntax))
   \<and> NumError ''x'' ErrSyntax \<noteq> ErrBadSyntaxInStorage
   \<and> map_option fst (Walk quietEnv bucket3 request1 (storing ''3|yesterday''))
     = Some (Some (ParseError ''yesterday''))
   \<and> ParseError ''yesterday'' \<noteq> ErrBadSyntaxInStorage
   \<and> decodeRecord ''+3|2023-11-14T2:13:20,5+24:60''
     = Inr (3, \<lparr>unixNano = 1699838000500000000, zoneOffset = 90000\<rparr>)
   \<and> map_option (\<lambda>x. (fst x, committed (snd x)))
        (Walk quietEnv bucket3 request1 (storing ''+3|2023-11-14T2:13:20,5+24:60''))
     = Some (None, [(''ginratelimiter:10.0.0.1'', ''2|2023-11-14T02:13:20+25:00'', 1800000000000)])"
  using Walk_bad_integer Walk_bad_timestamp decode_lenient Walk_lenient by simp

text \<open>
  C5, amended. A stored value whose number of separators is not one decodes to
  \<open>ErrBadSyntaxInStorage\<close>. With one separator, a first field that is not the text of
  an integer (an optional sign and at least one digit) decodes to a \<open>NumError\<close> of
  \<open>strconv.Atoi\<close>, and one whose number is outside 64 bits to the \<open>NumError\<close> with
  \<open>ErrRange\<close>; otherwise, a second field that \<open>time.Parse\<close> rejects decodes to that
  \<open>ParseError\<close>, and one that it accepts decodes to the integer and the time.
  \<open>time.Parse\<close> rejects every field that does not start with the date as RFC 3339
  writes it, and accepts what \<open>Format\<close> writes for every time that the layout can
  carry. When the \<open>GET\<close> of
  an attempt returns a value that decodes to an error, \<open>Walk\<close> returns that error,
  which is not the conflict, after this attempt: the state is the one after \<open>WATCH\<close>,
  \<open>GET\<close> and \<open>UNWATCH\<close>.
\<close>

theorem malformed_record_errors:
  "(count_list r (CHR ''|'') \<noteq> 1 \<longrightarrow> decodeRecord r = Inl ErrBadSyntaxInStorage)
   \<and> (CHR ''|'' \<notin> set a \<and> CHR ''|'' \<notin> set c \<and> \<not> integerText a \<longrightarrow>
        (\<exists>e. Atoi a = Inl e \<and> decodeRecord (a @ ''|'' @ c) = Inl (NumError a e)))
   \<and> (CHR ''|'' \<notin> set a \<and> CHR ''|'' \<notin> set c \<and> integerText a \<and> \<not> inInt64 (integerValue a) \<longrightarrow>
        decodeRecord (a @ ''|'' @ c) = Inl (NumError a ErrRange))
   \<and> (CHR ''|'' \<notin> set a \<and> CHR ''|'' \<notin> set c \<and> integerText a \<and> inInt64 (integerValue a) \<longrightarrow>
        decodeRecord (a @ ''|'' @ c)
          = (case ParseRFC3339 c of
               None \<Rightarrow> Inl (ParseError c)
             | Some t \<Rightarrow> Inr (integerValue a, t)))
   \<and> (\<not> dateText c \<longrightarrow> ParseRFC3339 c = None)
   \<and> (inRFC3339Range t \<longrightarrow> ParseRFC3339 (FormatRFC3339 t) = Some (truncateSecond t))
   \<and> (core b \<noteq> None \<and> faults env (length (sent w)) = None
        \<and> tx_Get env (storeKey (ClientIP ctx))
             ((arrive env (WATCH (storeKey (ClientIP ctx))) w)
                \<lparr>watched := [storeKey (ClientIP ctx)], touched := False\<rparr>) = (Inr r, w2)
        \<and> decodeRecord r = Inl e'
        \<longrightarrow> Walk env b ctx w = Some (Some e', tx_Close env w2) \<and> e' \<noteq> TxFailedErr
            \<and> sent (tx_Close env w2)
                = sent w @ [WATCH (storeKey (ClientIP ctx)), GET (storeKey (ClientIP ctx)), UNWATCH])"
proof -
  have c1: "count_list r (CHR ''|'') \<noteq> 1 \<longrightarrow> decodeRecord r = Inl ErrBadSyntaxInStorage"
    by (simp add: decodeRecord_def length_Split)
  have c2: "CHR ''|'' \<notin> set a \<and> CHR ''|'' \<notin> set c \<and> \<not> integerText a \<longrightarrow>
        (\<exists>e. Atoi a = Inl e \<and> decodeRecord (a @ ''|'' @ c) = Inl (NumError a e))"
  proof
    assume h: "CHR ''|'' \<notin> set a \<and> CHR ''|'' \<notin> set c \<and> \<not> integerText a"
    then obtain e where "Atoi a = Inl e" using Atoi_no_integer by blast
    with h show "\<exists>e. Atoi a = Inl e \<and> decodeRecord (a @ ''|'' @ c) = Inl (NumError a e)"
      by (simp add: decodeRecord_def Split_at_separator Split_no_separator)
  qed
  have c3: "CHR ''|'' \<notin> set a \<and> CHR ''|'' \<notin> set c \<and> integerText a \<and> \<not> inInt64 (integerValue a) \<longrightarrow>
        decodeRecord (a @ ''|'' @ c) = Inl (NumError a ErrRange)"
  proof
    assume h: "CHR ''|'' \<notin> set a \<and> CHR ''|'' \<notin> set c \<and> integerText a \<and> \<not> inInt64 (integerValue a)"
    then have "Atoi a = Inl ErrRange" by (simp add: Atoi_out_of_range)
    with h show "decodeRecord (a @ ''|'' @ c) = Inl (NumError a ErrRange)"
      by (simp add: decodeRecord_def Split_at_separator Split_no_separator)
  qed
  have c4: "CHR ''|'' \<notin> set a \<and> CHR ''|'' \<notin> set c \<and> integerText a \<and> inInt64 (integerValue a) \<longrightarrow>
        decodeRecord (a @ ''|'' @ c)
          = (case ParseRFC3339 c of
               None \<Rightarrow> Inl (ParseError c)
             | Some t \<Rightarrow> Inr (integerValue a, t))"
  proof
    assume h: "CHR ''|'' \<notin> set a \<and> CHR ''|'' \<notin> set c \<and> integerText a \<and> inInt64 (integerValue a)"
    then have "Atoi a = Inr (integerValue a)" by (simp add: Atoi_valid)
    with h show "decodeRecord (a @ ''|'' @ c)
          = (case ParseRFC3339 c of None \<Rightarrow> Inl (ParseError c) | Some t \<Rightarrow> Inr (integerValue a, t))"
      by (simp add: decodeRecord_def Split_at_separator Split_no_separator split: option.splits)
  qed
  have c5: "\<not> dateText c \<longrightarrow> ParseRFC3339 c = None"
    using ParseRFC3339_date [of c] by (cases "ParseRFC3339 c") auto
  have c6: "inRFC3339Range t \<longrightarrow> ParseRFC3339 (FormatRFC3339 t) = Some (truncateSecond t)"
    by (simp add: Parse_Format_truncates)
  have c7: "core b \<noteq> None \<and> faults env (length (sent w)) = None
        \<and> tx_Get env (storeKey (ClientIP ctx))
             ((arrive env (WATCH (storeKey (ClientIP ctx))) w)
                \<lparr>watched := [storeKey (ClientIP ctx)], touched := False\<rparr>) = (Inr r, w2)
        \<and> decodeRecord r = Inl e'
        \<longrightarrow> Walk env b ctx w = Some (Some e', tx_Close env w2) \<and> e' \<noteq> TxFailedErr
            \<and> sent (tx_Close env w2)
                = sent w @ [WATCH (storeKey (ClientIP ctx)), GET (storeKey (ClientIP ctx)), UNWATCH]"
  proof
    assume h: "core b \<noteq> None \<and> faults env (length (sent w)) = None
        \<and> tx_Get env (storeKey (ClientIP ctx))
             ((arrive env (WATCH (storeKey (ClientIP ctx))) w)
                \<lparr>watched := [storeKey (ClientIP ctx)], touched := False\<rparr>) = (Inr r, w2)
        \<and> decodeRecord r = Inl e'"
    then have fl: "faults env (length (sent w)) = None"
      and g: "tx_Get env (storeKey (ClientIP ctx))
             ((arrive env (WATCH (storeKey (ClientIP ctx))) w)
                \<lparr>watched := [storeKey (ClientIP ctx)], touched := False\<rparr>) = (Inr r, w2)"
      and d: "decodeRecord r = Inl e'" by simp_all
    have nc: "e' \<noteq> TxFailedErr" using decodeRecord_error [OF d] by simp
    have "attempt env b (ClientIP ctx) w = (Some e', tx_Close env w2)"
      by (rule attempt_refused [OF fl g decide_malformed [OF d]])
    then have "walkLoop env b (ClientIP ctx) w = Some (Some e', tx_Close env w2)"
      using nc by (intro walkLoop_return) simp_all
    then show "Walk env b ctx w = Some (Some e', tx_Close env w2) \<and> e' \<noteq> TxFailedErr
      \<and> sent (tx_Close env w2)
          = sent w @ [WATCH (storeKey (ClientIP ctx)), GET (storeKey (ClientIP ctx)), UNWATCH]"
      using h nc tx_Get_fields(1) [OF g] by (auto simp: Walk_def)
  qed
  from c1 c2 c3 c4 c5 c6 c7 show ?thesis by (intro conjI)
qed

theorem malformed_record_errors_witness:
  "count_list ''garbage'' (CHR ''|'') \<noteq> 1 \<and> decodeRecord ''garbage'' = Inl ErrBadSyntaxInStorage
   \<and> count_list ''1|2|3'' (CHR ''|'') \<noteq> 1 \<and> decodeRecord ''1|2|3'' = Inl ErrBadSyntaxInStorage
   \<and> CHR ''|'' \<notin> set ''x'' \<and> CHR ''|'' \<notin> set ''2023-11-14T22:13:20Z'' \<and> \<not> integerText ''x''
   \<and> Atoi ''x'' = Inl ErrSyntax
   \<and> decodeRecord ''x|2023-11-14T22:13:20Z'' = Inl (NumError ''x'' ErrSyntax)
   \<and> CHR ''|'' \<notin> set ''9223372036854775808'' \<and> integerText ''9223372036854775808''
   \<and> \<not> inInt64 (integerValue ''9223372036854775808'')
   \<and> decodeRecord ''9223372036854775808|2023-11-14T22:13:20Z''
       = Inl (NumError ''9223372036854775808'' ErrRange)
   \<and> CHR ''|'' \<notin> set ''3'' \<and> CHR ''|'' \<notin> set ''yesterday'' \<and> integerText ''3''
   \<and> inInt64 (integerValue ''3'') \<and> \<not> dateText ''yesterday'' \<and> ParseRFC3339 ''yesterday'' = None
   \<and> decodeRecord ''3|yesterday'' = Inl (ParseError ''yesterday'')
   \<and> \<not> dateText ''2023-11-14 22:13:20Z''
   \<and> decodeRecord ''3|2023-11-14 22:13:20Z'' = Inl (ParseError ''2023-11-14 22:13:20Z'')
   \<and> inRFC3339Range \<lparr>unixNano = 1700000000123456789, zoneOffset = 0\<rparr>
   \<and> ParseRFC3339 (FormatRFC3339 \<lparr>unixNano = 1700000000123456789, zoneOffset = 0\<rparr>)
       = Some \<lparr>unixNano = 1700000000000000000, zoneOffset = 0\<rparr>
   \<and> core bucket3 \<noteq> None \<and> faults quietEnv (length (sent (storing ''3|yesterday''))) = None
   \<and> tx_Get quietEnv (storeKey (ClientIP request1))
           ((arrive quietEnv (WATCH (storeKey (ClientIP request1))) (storing ''3|yesterday''))
              \<lparr>watched := [storeKey (ClientIP request1)], touched := False\<rparr>)
       = (Inr ''3|yesterday'',
          snd (tx_Get quietEnv (storeKey (ClientIP request1))
           ((arrive quietEnv (WATCH (storeKey (ClientIP request1))) (storing ''3|yesterday''))
              \<lparr>watched := [storeKey (ClientIP request1)], touched := False\<rparr>)))
   \<and> Walk quietEnv bucket3 request1 (storing ''3|yesterday'')
       = Some (Some (ParseError ''yesterday''),
               tx_Close quietEnv (snd (tx_Get quietEnv (storeKey (ClientIP request1))
           ((arrive quietEnv (WATCH (storeKey (ClientIP request1))) (storing ''3|yesterday''))
              \<lparr>watched := [storeKey (ClientIP request1)], touched := False\<rparr>))))"
proof -
  let ?big = "''9223372036854775808''"
  let ?stamp = "''2023-11-14T22:13:20Z''"
  let ?now = "\<lparr>unixNano = 1700000000123456789, zoneOffset = 0\<rparr>"
  have c1: "count_list ''garbage'' (CHR ''|'') \<noteq> 1" "count_list ''1|2|3'' (CHR ''|'') \<noteq> 1" by simp_all
  have n: "CHR ''|'' \<notin> set ''x''" "CHR ''|'' \<notin> set ?stamp" "CHR ''|'' \<notin> set ?big"
    "CHR ''|'' \<notin> set ''3''" "CHR ''|'' \<notin> set ''yesterday''" "CHR ''|'' \<notin> set ''2023-11-14 22:13:20Z''"
    by simp_all
  have i: "\<not> integerText ''x''" "integerText ?big" "\<not> inInt64 (integerValue ?big)"
    "integerText ''3''" "inInt64 (integerValue ''3'')" "integerValue ''3'' = 3"
    by code_simp+
  have dt: "\<not> dateText ''yesterday''" "\<not> dateText ''2023-11-14 22:13:20Z''"
    by code_simp+
  have rg: "inRFC3339Range ?now"
    by (simp add: inRFC3339Range_def)
  have tr: "truncateSecond ?now = \<lparr>unixNano = 1700000000000000000, zoneOffset = 0\<rparr>"
    by (simp add: truncateSecond_def)
  have cb: "core bucket3 \<noteq> None" by (simp add: core_bucket3)
  have fl: "faults quietEnv (length (sent (storing ''3|yesterday''))) = None"
    by (simp add: quietEnv_def)
  have g: "tx_Get quietEnv (storeKey (ClientIP request1))
           ((arrive quietEnv (WATCH (storeKey (ClientIP request1))) (storing ''3|yesterday''))
              \<lparr>watched := [storeKey (ClientIP request1)], touched := False\<rparr>)
       = (Inr ''3|yesterday'',
          snd (tx_Get quietEnv (storeKey (ClientIP request1))
           ((arrive quietEnv (WATCH (storeKey (ClientIP request1))) (storing ''3|yesterday''))
              \<lparr>watched := [storeKey (ClientIP request1)], touched := False\<rparr>)))"
    using Get_bad_timestamp by (simp add: prod_eq_iff)
  have d1: "decodeRecord ''garbage'' = Inl ErrBadSyntaxInStorage"
    "decodeRecord ''1|2|3'' = Inl ErrBadSyntaxInStorage"
    using malformed_record_errors [where r = "''garbage''"] malformed_record_errors [where r = "''1|2|3''"] c1
    by blast+
  have a2: "Atoi ''x'' = Inl ErrSyntax" by code_simp
  have d2: "decodeRecord ''x|2023-11-14T22:13:20Z'' = Inl (NumError ''x'' ErrSyntax)"
    using malformed_record_errors [where a = "''x''" and c = ?stamp] n(1,2) i(1) a2 by auto
  have d3: "decodeRecord ''9223372036854775808|2023-11-14T22:13:20Z'' = Inl (NumError ?big ErrRange)"
    using malformed_record_errors [where a = ?big and c = ?stamp] n(2,3) i(2,3) by simp
  have p4: "ParseRFC3339 ''yesterday'' = None"
    using malformed_record_errors [where c = "''yesterday''"] dt(1) by blast
  have d4: "decodeRecord ''3|yesterday'' = Inl (ParseError ''yesterday'')"
    using malformed_record_errors [where a = "''3''" and c = "''yesterday''"] n(4,5) i(4,5) p4 by simp
  have p5: "ParseRFC3339 ''2023-11-14 22:13:20Z'' = None"
    using malformed_record_errors [where c = "''2023-11-14 22:13:20Z''"] dt(2) by blast
  have d5: "decodeRecord ''3|2023-11-14 22:13:20Z'' = Inl (ParseError ''2023-11-14 22:13:20Z'')"
    using malformed_record_errors [where a = "''3''" and c = "''2023-11-14 22:13:20Z''"] n(4,6) i(4,5) p5 by simp
  have p6: "ParseRFC3339 (FormatRFC3339 ?now) = Some \<lparr>unixNano = 1700000000000000000, zoneOffset = 0\<rparr>"
    using malformed_record_errors [where t = ?now] rg tr by simp
  have w: "Walk quietEnv bucket3 request1 (storing ''3|yesterday'')
       = Some (Some (ParseError ''yesterday''),
               tx_Close quietEnv (snd (tx_Get quietEnv (storeKey (ClientIP request1))
           ((arrive quietEnv (WATCH (storeKey (ClientIP request1))) (storing ''3|yesterday''))
              \<lparr>watched := [storeKey (ClientIP request1)], touched := False\<rparr>))))"
    using malformed_record_errors [where r = "''3|yesterday''" and b = bucket3 and env = quietEnv
        and w = "storing ''3|yesterday''" and ctx = request1 and e' = "ParseError ''yesterday''"]
      cb fl g d4 by blast
  show ?thesis
    using c1 n i(1-5) dt rg cb fl g d1 a2 d2 d3 p4 d4 d5 p6 w by (intro conjI)
qed

subsection \<open>C1\<close>

text \<open>
  C1, as stated, fails in three places.

  Where Go's integers wrap: the stored value
  \<open>-9223372036854775808|2023-11-14T22:13:00Z\<close> decodes to the least \<open>int\<close>, which is
  below the capacity 3. Read 20.12 seconds after its time with a refill time of ten
  seconds, the claim adds \<open>min 2 (3 - tokens) = 2\<close> tokens; in the source
  \<open>b.cap - tokens\<close> wraps to a negative number, which is taken as the number of tokens to
  add, and the sum wraps to the full capacity 3 with the time moved to now.

  For a negative \<open>k\<close>: a record whose time is one refill time after the clock reading
  (\<open>k = -1\<close>) is left unchanged with its 0 tokens, where the claim's \<open>min capacity (r + k)\<close>
  is \<open>-1\<close>.

  Where \<open>time.Since\<close> saturates: the stored value \<open>0|1700-01-01T00:00:00Z\<close> is read more
  than 292 years after its time. With a capacity of 2000000000 the claim adds
  \<open>min 1022033600 2000000000\<close> tokens, the source the saturated duration divided by the
  refill time, 922337203.
\<close>

theorem refill_wraps_on_overflow:
  "decodeRecord ''-9223372036854775808|2023-11-14T22:13:00Z''
     = Inr (- 9223372036854775808, \<lparr>unixNano = 1699999980000000000, zoneOffset = 0\<rparr>)
   \<and> - 9223372036854775808 < cap bucket3
   \<and> fst (refill quietEnv bucket3 (- 9223372036854775808)
             \<lparr>unixNano = 1699999980000000000, zoneOffset = 0\<rparr> emptyWorld)
     = Inr (3, \<lparr>unixNano = 1700000001123456789, zoneOffset = 0\<rparr>)
   \<and> - 9223372036854775808
       + min ((unixNano (clock quietEnv (nowReads emptyWorld)) - 1699999980000000000)
                div tokenAppendTime bucket3)
             (cap bucket3 - (- 9223372036854775808))
     = - 9223372036854775806
   \<and> unixNano (clock quietEnv (nowReads emptyWorld)) = 1700000010123456789 + (- 1) * tokenAppendTime bucket3
   \<and> fst (refill quietEnv bucket3 0 \<lparr>unixNano = 1700000010123456789, zoneOffset = 0\<rparr> emptyWorld)
     = Inr (0, \<lparr>unixNano = 1700000010123456789, zoneOffset = 0\<rparr>)
   \<and> min (cap bucket3) (0 + (- 1)) = - 1
   \<and> decodeRecord ''0|1700-01-01T00:00:00Z''
     = Inr (0, \<lparr>unixNano = - 8520336000000000000, zoneOffset = 0\<rparr>)
   \<and> fst (refill quietEnv (bucket3\<lparr>cap := 2000000000\<rparr>) 0
             \<lparr>unixNano = - 8520336000000000000, zoneOffset = 0\<rparr> emptyWorld)
     = Inr (922337203, \<lparr>unixNano = 703036030000000000, zoneOffset = 0\<rparr>)
   \<and> 0 + min ((unixNano (clock quietEnv (nowReads emptyWorld)) - (- 8520336000000000000))
                div tokenAppendTime (bucket3\<lparr>cap := 2000000000\<rparr>))
               (cap (bucket3\<lparr>cap := 2000000000\<rparr>) - 0)
     = 1022033600"
  using decode_least_int refill_least_int refill_before_last decode_old_time refill_saturated
  by (simp add: bucket3_def NewRedisBucketWithClient_def NewTokenAppendTimeDefault_def
      quietEnv_def emptyWorld_def)

text \<open>
  C1, amended. For a record with fewer tokens than the capacity, a positive refill time,
  a difference \<open>capacity - remainingTokens\<close> that fits the 64-bit \<open>int\<close> and an
  elapsed time \<open>now - lastRefillTime\<close> that fits a \<open>Duration\<close>: if the elapsed time
  is below the refill time the record is left unchanged; otherwise
  \<open>tokensToAdd = min (elapsed div refillInterval) (capacity - remainingTokens)\<close>
  tokens are added, and the new refill time is the next reading of the clock when the
  bucket thereby becomes full and \<open>lastRefillTime + tokensToAdd * refillInterval\<close>
  otherwise. In particular, for \<open>k \<ge> 0\<close>, a read at \<open>t0 + k * refillInterval\<close>
  yields \<open>min capacity (r + k)\<close> tokens.
\<close>

theorem refill_adds_elapsed_tokens:
  assumes "tokens < cap b" and "0 < tokenAppendTime b"
    and "inInt64 tokens" and "inInt64 (cap b)" and "inInt64 (cap b - tokens)"
    and "inInt64 (unixNano (clock env (nowReads w)) - unixNano t)"
  shows "(unixNano (clock env (nowReads w)) - unixNano t < tokenAppendTime b
            \<longrightarrow> fst (refill env b tokens t w) = Inr (tokens, t))
       \<and> (tokenAppendTime b \<le> unixNano (clock env (nowReads w)) - unixNano t
            \<longrightarrow> (let tokensToAdd =
                        min ((unixNano (clock env (nowReads w)) - unixNano t) div tokenAppendTime b)
                            (cap b - tokens)
                 in fst (refill env b tokens t w)
                      = Inr (tokens + tokensToAdd,
                             if tokens + tokensToAdd = cap b then clock env (Suc (nowReads w))
                             else Add t (tokensToAdd * tokenAppendTime b))))
       \<and> (0 \<le> k \<and> unixNano (clock env (nowReads w)) = unixNano t + k * tokenAppendTime b
            \<longrightarrow> (\<exists>t'. fst (refill env b tokens t w) = Inr (min (cap b) (tokens + k), t')))"
proof -
  define p where "p = unixNano (clock env (nowReads w)) - unixNano t"
  have s: "Sub (clock env (nowReads w)) t = p"
    unfolding p_def by (rule Sub_exact [OF assms(6)])
  have ip: "inInt64 p" using assms(6) by (simp add: p_def)
  have early: "fst (refill env b tokens t w) = Inr (tokens, t)" if "p < tokenAppendTime b"
    using refill_early [OF assms(1), of env w t] s that by simp
  have due: "fst (refill env b tokens t w)
      = Inr (tokens + min (p div tokenAppendTime b) (cap b - tokens),
             if tokens + min (p div tokenAppendTime b) (cap b - tokens) = cap b
             then clock env (Suc (nowReads w))
             else Add t (min (p div tokenAppendTime b) (cap b - tokens) * tokenAppendTime b))"
    if "tokenAppendTime b \<le> p"
    using refill_due(1) [OF assms(1,2,3,4,5) s that ip] by simp
  have exact: "\<exists>t'. fst (refill env b tokens t w) = Inr (min (cap b) (tokens + k), t')"
    if k: "0 \<le> k" "unixNano (clock env (nowReads w)) = unixNano t + k * tokenAppendTime b"
  proof (cases "k = 0")
    case True
    then have "p < tokenAppendTime b" using k(2) assms(2) by (simp add: p_def)
    from early [OF this] True assms(1) show ?thesis by simp
  next
    case False
    then have k1: "1 \<le> k" using k(1) by simp
    have pk: "p = k * tokenAppendTime b" using k(2) by (simp add: p_def)
    have "1 * tokenAppendTime b \<le> k * tokenAppendTime b"
      using k1 assms(2) by (intro mult_right_mono) simp_all
    then have ge: "tokenAppendTime b \<le> p" by (simp add: pk)
    have d: "p div tokenAppendTime b = k" using assms(2) by (simp add: pk)
    have "tokens + min k (cap b - tokens) = min (cap b) (tokens + k)" by simp
    with due [OF ge] show ?thesis unfolding d by simp
  qed
  show ?thesis
    using early due exact unfolding p_def Let_def by blast
qed

theorem refill_adds_elapsed_tokens_witness:
  "0 < cap bucket3 \<and> 0 < tokenAppendTime bucket3 \<and> inInt64 0 \<and> inInt64 (cap bucket3)
   \<and> inInt64 (cap bucket3 - 0)
   \<and> inInt64 (unixNano (clock quietEnv (nowReads emptyWorld)) - 1699999995123456789)
   \<and> fst (refill quietEnv bucket3 0 \<lparr>unixNano = 1699999995123456789, zoneOffset = 0\<rparr> emptyWorld)
       = Inr (0, \<lparr>unixNano = 1699999995123456789, zoneOffset = 0\<rparr>)
   \<and> inInt64 (unixNano (clock quietEnv (nowReads emptyWorld)) - 1699999980000000000)
   \<and> fst (refill quietEnv bucket3 0 \<lparr>unixNano = 1699999980000000000, zoneOffset = 0\<rparr> emptyWorld)
       = Inr (2, Add \<lparr>unixNano = 1699999980000000000, zoneOffset = 0\<rparr> 20000000000)
   \<and> inInt64 (unixNano (clock quietEnv (nowReads emptyWorld)) - 1699999950123456789)
   \<and> unixNano (clock quietEnv (nowReads emptyWorld)) = 1699999950123456789 + 5 * tokenAppendTime bucket3
   \<and> fst (refill quietEnv bucket3 0 \<lparr>unixNano = 1699999950123456789, zoneOffset = 0\<rparr> emptyWorld)
       = Inr (3, clock quietEnv (Suc (nowReads emptyWorld)))"
proof -
  have b: "cap bucket3 = 3" "tokenAppendTime bucket3 = 10000000000"
    by (simp_all add: bucket3_def NewRedisBucketWithClient_def NewTokenAppendTimeDefault_def)
  have n: "unixNano (clock quietEnv (nowReads emptyWorld)) = 1700000000123456789"
    by (simp add: quietEnv_def emptyWorld_def)
  have h: "0 < cap bucket3" "0 < tokenAppendTime bucket3" "inInt64 0" "inInt64 (cap bucket3)"
    "inInt64 (cap bucket3 - 0)"
    by (simp_all add: b inInt64_def minInt64_def maxInt64_def)
  have i1: "inInt64 (unixNano (clock quietEnv (nowReads emptyWorld)) - 1699999995123456789)"
    and i2: "inInt64 (unixNano (clock quietEnv (nowReads emptyWorld)) - 1699999980000000000)"
    and i3: "inInt64 (unixNano (clock quietEnv (nowReads emptyWorld)) - 1699999950123456789)"
    by (simp_all add: n inInt64_def minInt64_def maxInt64_def)
  have k: "unixNano (clock quietEnv (nowReads emptyWorld)) = 1699999950123456789 + 5 * tokenAppendTime bucket3"
    by (simp add: n b)
  have r1: "fst (refill quietEnv bucket3 0 \<lparr>unixNano = 1699999995123456789, zoneOffset = 0\<rparr> emptyWorld)
       = Inr (0, \<lparr>unixNano = 1699999995123456789, zoneOffset = 0\<rparr>)"
    using refill_adds_elapsed_tokens [of 0 bucket3 quietEnv emptyWorld
        "\<lparr>unixNano = 1699999995123456789, zoneOffset = 0\<rparr>"] h i1
    by (simp add: n b)
  have r2: "fst (refill quietEnv bucket3 0 \<lparr>unixNano = 1699999980000000000, zoneOffset = 0\<rparr> emptyWorld)
       = Inr (2, Add \<lparr>unixNano = 1699999980000000000, zoneOffset = 0\<rparr> 20000000000)"
    using refill_adds_elapsed_tokens [of 0 bucket3 quietEnv emptyWorld
        "\<lparr>unixNano = 1699999980000000000, zoneOffset = 0\<rparr>"] h i2
    by (simp add: n b)
  have r3: "fst (refill quietEnv bucket3 0 \<lparr>unixNano = 1699999950123456789, zoneOffset = 0\<rparr> emptyWorld)
       = Inr (3, clock quietEnv (Suc (nowReads emptyWorld)))"
    using refill_adds_elapsed_tokens [of 0 bucket3 quietEnv emptyWorld
        "\<lparr>unixNano = 1699999950123456789, zoneOffset = 0\<rparr>" 5] h i3
    by (simp add: n b)
  show ?thesis
    using h i1 r1 i2 r2 i3 k r3 by (intro conjI)
qed

subsection \<open>C2\<close>

text \<open>
  C2, as stated, fails: a call that ends with \<open>ErrNoTokensAwailable\<close> may have
  attempted a write in an earlier turn of its loop. With three tokens for a fresh
  identity the first attempt sends its transaction, which the server refuses because
  another client has meanwhile written the key (leaving no tokens); the second attempt
  reads that value and is rejected. The call sent \<open>MULTI; SET; EXEC\<close> and committed
  nothing.
\<close>

theorem rejected_call_attempted_write:
  "map_option (\<lambda>x. (fst x, sent (snd x), committed (snd x))) (Walk racingEnv bucket3 request1 emptyWorld)
     = Some (Some ErrNoTokensAwailable,
             [WATCH ''ginratelimiter:10.0.0.1'', GET ''ginratelimiter:10.0.0.1'',
              EXEC_SET ''ginratelimiter:10.0.0.1'' ''2|2023-11-14T22:13:20Z'' 1800000000000, UNWATCH,
              WATCH ''ginratelimiter:10.0.0.1'', GET ''ginratelimiter:10.0.0.1'', UNWATCH],
             [])"
  by (rule Walk_racing)

text \<open>
  C2, amended. A call of \<open>Walk\<close> that ends with \<open>ErrNoTokensAwailable\<close> commits no
  write, and the attempt that rejects sends no write: its commands are \<open>WATCH\<close>,
  \<open>GET\<close> and \<open>UNWATCH\<close>. When no other client modifies the store during the call,
  these are all the commands of the call and the store is the same before and after it.
\<close>

theorem rejected_call_commits_nothing:
  assumes "Walk env b ctx w = Some (Some ErrNoTokensAwailable, w')"
  shows "committed w' = committed w
       \<and> (\<exists>before. sent w' = before @ [WATCH (storeKey (ClientIP ctx)), GET (storeKey (ClientIP ctx)), UNWATCH])
       \<and> (quiet env \<longrightarrow>
            sent w' = sent w @ [WATCH (storeKey (ClientIP ctx)), GET (storeKey (ClientIP ctx)), UNWATCH]
            \<and> db w' = db w)"
proof -
  let ?I = "\<lambda>u. committed u = committed w \<and> (quiet env \<longrightarrow> u = w)"
  have run: "walkLoop env b (ClientIP ctx) w = Some (Some ErrNoTokensAwailable, w')"
    using assms by (intro Walk_running) simp_all
  have step: "?I u1" if "?I u" "attempt env b (ClientIP ctx) u = (Some TxFailedErr, u1)" for u u1
    using that attempt_conflict(1) [OF that(2)] attempt_quiet_no_conflict [OF _ that(2)] by auto
  from walkLoop_last [OF run, of ?I] step obtain w0
    where w0: "committed w0 = committed w" "quiet env \<longrightarrow> w0 = w"
      and a: "attempt env b (ClientIP ctx) w0 = (Some ErrNoTokensAwailable, w')"
    by blast
  from attempt_rejected [OF a] w0 show ?thesis by auto
qed

theorem rejected_call_commits_nothing_witness:
  "Walk racingEnv bucket3 request1 emptyWorld
     = Some (Some ErrNoTokensAwailable, snd (the (Walk racingEnv bucket3 request1 emptyWorld)))
   \<and> committed (snd (the (Walk racingEnv bucket3 request1 emptyWorld))) = committed emptyWorld
   \<and> Walk quietEnv bucket3 request1 (storing ''0|2023-11-14T22:13:20Z'')
     = Some (Some ErrNoTokensAwailable,
             snd (the (Walk quietEnv bucket3 request1 (storing ''0|2023-11-14T22:13:20Z''))))
   \<and> quiet quietEnv
   \<and> sent (snd (the (Walk quietEnv bucket3 request1 (storing ''0|2023-11-14T22:13:20Z''))))
     = sent (storing ''0|2023-11-14T22:13:20Z'')
       @ [WATCH (storeKey (ClientIP request1)), GET (storeKey (ClientIP request1)), UNWATCH]
   \<and> db (snd (the (Walk quietEnv bucket3 request1 (storing ''0|2023-11-14T22:13:20Z''))))
     = db (storing ''0|2023-11-14T22:13:20Z'')"
proof -
  have "map_option fst (Walk racingEnv bucket3 request1 emptyWorld) = Some (Some ErrNoTokensAwailable)"
    using Walk_racing by (cases "Walk racingEnv bucket3 request1 emptyWorld") auto
  then have r: "Walk racingEnv bucket3 request1 emptyWorld
     = Some (Some ErrNoTokensAwailable, snd (the (Walk racingEnv bucket3 request1 emptyWorld)))"
    by (rule result_of)
  have e: "Walk quietEnv bucket3 request1 (storing ''0|2023-11-14T22:13:20Z'')
     = Some (Some ErrNoTokensAwailable,
             snd (the (Walk quietEnv bucket3 request1 (storing ''0|2023-11-14T22:13:20Z''))))"
    using Walk_exhausted by (rule result_of)
  have q: "quiet quietEnv" by (simp add: quiet_def quietEnv_def)
  show ?thesis
    using rejected_call_commits_nothing [OF r] rejected_call_commits_nothing [OF e] r e q
    by simp
qed

subsection \<open>C7\<close>



subsection \<open>C4\<close>

text \<open>
  C4. For a bucket as the constructors build it, a store in which every value was
  written by such a bucket (or which has no keys), and other clients that write only
  such values: after every sequence of calls of \<open>Walk\<close>, every record the calls
  committed is the encoding of a number of tokens from 0 to the capacity and a time, and
  every value in the store is again such a record.
\<close>

theorem committed_tokens_within_bounds:
  assumes "validBucket b" and "othersWrittenBy b env" and "storeWrittenBy b (db w)"
    and "Walks env b ctxs w = Some (rs, w')"
  shows "(\<exists>new. committed w' = committed w @ new
            \<and> (\<forall>c \<in> set new. \<exists>n t. fst (snd c) = encodeRecord n t \<and> 0 \<le> n \<and> n \<le> cap b))
       \<and> storeWrittenBy b (db w')"
  using Walks_within_bounds [OF assms] unfolding writtenBy_def by blast

theorem committed_tokens_within_bounds_witness:
  "validBucket bucket3 \<and> othersWrittenBy bucket3 quietEnv
   \<and> storeWrittenBy bucket3 (db (storing ''2|2023-11-14T22:13:20Z''))
   \<and> Walks quietEnv bucket3 [request1] (storing ''2|2023-11-14T22:13:20Z'')
       = Some ([None], snd (the (Walks quietEnv bucket3 [request1] (storing ''2|2023-11-14T22:13:20Z''))))
   \<and> (\<exists>new. committed (snd (the (Walks quietEnv bucket3 [request1] (storing ''2|2023-11-14T22:13:20Z''))))
              = committed (storing ''2|2023-11-14T22:13:20Z'') @ new
            \<and> (\<forall>c \<in> set new. \<exists>n t. fst (snd c) = encodeRecord n t \<and> 0 \<le> n \<and> n \<le> cap bucket3))
   \<and> storeWrittenBy bucket3 (db (snd (the (Walks quietEnv bucket3 [request1] (storing ''2|2023-11-14T22:13:20Z'')))))"
proof -
  have o: "othersWrittenBy bucket3 quietEnv"
    by (simp add: othersWrittenBy_def quietEnv_def)
  have "writtenBy bucket3 ''2|2023-11-14T22:13:20Z''"
    unfolding writtenBy_def
    by (intro exI [of _ 2] exI [of _ "\<lparr>unixNano = 1700000000000000000, zoneOffset = 0\<rparr>"])
       (simp add: encode_stored bucket3_def NewRedisBucketWithClient_def)
  then have s: "storeWrittenBy bucket3 (db (storing ''2|2023-11-14T22:13:20Z''))"
    by (simp add: storeWrittenBy_def storing_def emptyWorld_def)
  have r: "Walks quietEnv bucket3 [request1] (storing ''2|2023-11-14T22:13:20Z'')
       = Some ([None], snd (the (Walks quietEnv bucket3 [request1] (storing ''2|2023-11-14T22:13:20Z''))))"
    using Walks_stored by (rule result_of)
  from committed_tokens_within_bounds [OF validBucket_bucket3 o s r] validBucket_bucket3 o s r
  show ?thesis by (intro conjI) blast+
qed

subsection \<open>C8\<close>

text \<open>
  C8 fails for calls one after the other, which is one of the schedules of concurrent
  calls. The stored time has no fraction of a second, so the time since the last refill
  is measured from the start of its second and a refill comes up to a second early. On a
  fresh identity, with a bucket of capacity 3 and the default refill time of ten seconds,
  five calls made within 9.6 seconds (no refill is due during the run) are answered
  with: admitted, admitted, admitted, rejected, admitted. Four calls are admitted, not
  three, and the record committed last was authorized by a refill. With a refill time of
  100 milliseconds six calls made within ten milliseconds are all admitted, each after a
  refill to the capacity, and the record committed last holds two tokens, not none.
\<close>

theorem early_refill_admits_more_than_capacity:
  "cap bucket3 = 3 \<and> tokenAppendTime bucket3 = 10000000000
   \<and> unixNano (clock burstEnv 4) - unixNano (clock burstEnv 0) = 9600000000
   \<and> map_option (\<lambda>x. (fst x, committed (snd x)))
        (Walks burstEnv bucket3 [request1, request1, request1, request1, request1] emptyWorld)
      = Some ([None, None, None, Some ErrNoTokensAwailable, None],
              [(''ginratelimiter:10.0.0.1'', ''2|2023-11-14T22:13:20Z'', 1800000000000),
               (''ginratelimiter:10.0.0.1'', ''1|2023-11-14T22:13:20Z'', 1800000000000),
               (''ginratelimiter:10.0.0.1'', ''0|2023-11-14T22:13:20Z'', 1800000000000),
               (''ginratelimiter:10.0.0.1'', ''0|2023-11-14T22:13:30Z'', 1800000000000)])
   \<and> cap bucket100ms = 3 \<and> tokenAppendTime bucket100ms = 100000000
   \<and> unixNano (clock rapidEnv 10) - unixNano (clock rapidEnv 0) = 10000000
   \<and> map_option (\<lambda>x. (fst x, committed (snd x)))
        (Walks rapidEnv bucket100ms [request1, request1, request1, request1, request1, request1] emptyWorld)
      = Some ([None, None, None, None, None, None],
              [(''ginratelimiter:10.0.0.1'', ''2|2023-11-14T22:13:20Z'', 1800000000000),
               (''ginratelimiter:10.0.0.1'', ''2|2023-11-14T22:13:20Z'', 1800000000000),
               (''ginratelimiter:10.0.0.1'', ''2|2023-11-14T22:13:20Z'', 1800000000000),
               (''ginratelimiter:10.0.0.1'', ''2|2023-11-14T22:13:20Z'', 1800000000000),
               (''ginratelimiter:10.0.0.1'', ''2|2023-11-14T22:13:20Z'', 1800000000000),
               (''ginratelimiter:10.0.0.1'', ''2|2023-11-14T22:13:20Z'', 1800000000000)])"
proof -
  have "cap bucket3 = 3" "tokenAppendTime bucket3 = 10000000000"
    by (simp_all add: bucket3_def NewRedisBucketWithClient_def NewTokenAppendTimeDefault_def)
  moreover have "unixNano (clock burstEnv 4) - unixNano (clock burstEnv 0) = 9600000000"
    by (simp add: burstEnv_def)
  moreover have "cap bucket100ms = 3" "tokenAppendTime bucket100ms = 100000000"
    by (simp_all add: bucket100ms_def NewRedisBucketWithClient_def)
  moreover have "unixNano (clock rapidEnv 10) - unixNano (clock rapidEnv 0) = 10000000"
    by (simp add: rapidEnv_def)
  ultimately show ?thesis
    using burst_run rapid_run by (intro conjI)
qed

end
